theory Spec2Isabelle
  imports Main "HOL-Library.Multiset" "HOL-Library.Sublist"
begin

section \<open>Paths\<close>

text \<open>
  The server only handles absolute, normalised POSIX paths (every path it stores went
  through \<^verbatim>\<open>resolve\<close> or was built by \<^verbatim>\<open>join\<close> from such a path and a
  directory entry). Such a path is modelled as the list of its components below
  \<^verbatim>\<open>/\<close>: \<^verbatim>\<open>/proj/sub\<close> is \<open>[''proj'', ''sub'']\<close> and \<^verbatim>\<open>/\<close> is \<open>[]\<close>.
\<close>

type_synonym path = "string list"

text \<open>\<^verbatim>\<open>Array.prototype.join(sep)\<close> on a list of strings.\<close>

fun join_with :: "string \<Rightarrow> string list \<Rightarrow> string" where
  "join_with sep [] = []"
| "join_with sep [x] = x"
| "join_with sep (x # y # ys) = x @ sep @ join_with sep (y # ys)"

text \<open>
  \<^verbatim>\<open>join(dir, item)\<close> of module \<^verbatim>\<open>path\<close>, for a normalised directory and one
  directory entry name as \<^verbatim>\<open>readdir\<close> returns it (never empty, \<^verbatim>\<open>.\<close> or \<^verbatim>\<open>..\<close>,
  and without a slash).
\<close>

definition join :: "path \<Rightarrow> string \<Rightarrow> path" where
  "join dir item = dir @ [item]"

text \<open>
  \<^verbatim>\<open>relative(from, to)\<close> of module \<^verbatim>\<open>path\<close> on two absolute normalised paths: the
  common prefix is dropped, one \<^verbatim>\<open>..\<close> is emitted for each component left of
  \<^verbatim>\<open>from\<close>, then the rest of \<^verbatim>\<open>to\<close>; the result is a string with separator
  \<^verbatim>\<open>/\<close> (the empty string when both are equal).
\<close>

fun relative_parts :: "path \<Rightarrow> path \<Rightarrow> string list" where
  "relative_parts (f # fs) (t # ts) =
     (if f = t then relative_parts fs ts
      else replicate (length (f # fs)) ''..'' @ (t # ts))"
| "relative_parts fs ts = replicate (length fs) ''..'' @ ts"

definition relative :: "path \<Rightarrow> path \<Rightarrow> string" where
  "relative from to = join_with ''/'' (relative_parts from to)"

text \<open>\<^verbatim>\<open>parse(p).base\<close>: the last component, the empty string for the root.\<close>

definition base :: "path \<Rightarrow> string" where
  "base p = (case rev p of [] \<Rightarrow> [] | b # _ \<Rightarrow> b)"

text \<open>
  \<^verbatim>\<open>resolve(p)\<close> of module \<^verbatim>\<open>path\<close> with one argument: a relative \<^verbatim>\<open>p\<close> is taken
  from the working directory, empty and \<^verbatim>\<open>.\<close> segments are dropped and \<^verbatim>\<open>..\<close>
  removes the last component (it stays at the root).
\<close>

fun split_slash :: "string \<Rightarrow> string list" where
  "split_slash [] = [[]]"
| "split_slash (c # cs) =
     (if c = CHR ''/'' then [] # split_slash cs
      else (case split_slash cs of
              [] \<Rightarrow> [[c]]
            | w # ws \<Rightarrow> (c # w) # ws))"

definition normalize_step :: "path \<Rightarrow> string \<Rightarrow> path" where
  "normalize_step acc seg =
     (if seg = [] \<or> seg = ''.'' then acc
      else if seg = ''..'' then butlast acc
      else acc @ [seg])"

definition resolve :: "path \<Rightarrow> string \<Rightarrow> path" where
  "resolve cwd p =
     foldl normalize_step
       (case p of [] \<Rightarrow> cwd | c # _ \<Rightarrow> if c = CHR ''/'' then [] else cwd)
       (split_slash p)"

text \<open>\<^verbatim>\<open>String.prototype.includes(pat)\<close>: \<open>pat\<close> occurs in \<open>s\<close> as a substring.\<close>

fun str_includes :: "string \<Rightarrow> string \<Rightarrow> bool" where
  "str_includes [] pat = (pat = [])"
| "str_includes (c # cs) pat = (take (length pat) (c # cs) = pat \<or> str_includes cs pat)"

section \<open>The filesystem as the server observes it\<close>

text \<open>
  The server reads the filesystem through \<^verbatim>\<open>stat\<close> and \<^verbatim>\<open>readdir\<close> of
  \<^verbatim>\<open>fs/promises\<close> only. Either call may reject. What \<^verbatim>\<open>Stats\<close> the code uses
  is \<^verbatim>\<open>isDirectory()\<close>, \<^verbatim>\<open>isFile()\<close> and \<^verbatim>\<open>size\<close>.
\<close>

datatype fs_error = ENOENT | ENOTDIR | EACCES | ELOOP

record stats =
  isDirectory :: bool
  isFile :: bool
  st_size :: nat

text \<open>
  An entry of the filesystem is what the two calls answer at its path: the result of
  \<^verbatim>\<open>stat\<close>, the error of \<^verbatim>\<open>readdir\<close> if it rejects, and the entries below it in
  listing order, each with its name. The two answers are independent, as they are for
  the code: a directory may be listed but not readable, an entry may be listed and gone
  when \<^verbatim>\<open>stat\<close> looks at it. Paths have a bounded length, so the entries reachable
  through these calls always form a finite tree (a symbolic link cycle ends in an
  entry whose \<^verbatim>\<open>stat\<close> rejects with \<^verbatim>\<open>ELOOP\<close>).
\<close>

datatype fsnode =
  FsNode (nstat: "fs_error + stats") (nreaddir_err: "fs_error option")
         (nentries: "(string \<times> fsnode) list")

definition absent :: fsnode where
  "absent = FsNode (Inl ENOENT) (Some ENOENT) []"

definition regular_file :: "nat \<Rightarrow> fsnode" where
  "regular_file n =
     FsNode (Inr \<lparr>isDirectory = False, isFile = True, st_size = n\<rparr>) (Some ENOTDIR) []"

definition directory_of :: "(string \<times> fsnode) list \<Rightarrow> fsnode" where
  "directory_of es =
     FsNode (Inr \<lparr>isDirectory = True, isFile = False, st_size = 4096\<rparr>) None es"

text \<open>The entry at a path, from the entry at \<^verbatim>\<open>/\<close>.\<close>

fun lookup :: "fsnode \<Rightarrow> path \<Rightarrow> fsnode" where
  "lookup n [] = n"
| "lookup n (c # cs) =
     (case map_of (nentries n) c of
        None \<Rightarrow> absent
      | Some child \<Rightarrow> lookup child cs)"

definition stat :: "fsnode \<Rightarrow> path \<Rightarrow> fs_error + stats" where
  "stat root p = nstat (lookup root p)"

definition readdir_node :: "fsnode \<Rightarrow> fs_error + string list" where
  "readdir_node n =
     (case nreaddir_err n of
        Some e \<Rightarrow> Inl e
      | None \<Rightarrow> Inr (map fst (nentries n)))"

definition readdir :: "fsnode \<Rightarrow> path \<Rightarrow> fs_error + string list" where
  "readdir root p = readdir_node (lookup root p)"

section \<open>The tree builder: \<^verbatim>\<open>getDirectoryStructure\<close>\<close>

datatype node_type = Directory | File

text \<open>
  A node of the result. \<open>node_size\<close> is \<^verbatim>\<open>null\<close> (\<open>None\<close>) unless the entry is a
  regular file; the property \<^verbatim>\<open>children\<close> exists for directories only.
\<close>

datatype node =
  Node (node_name: string) (node_path: string) (node_type: node_type)
       (node_size: "nat option") (node_children: "node list option")

text \<open>
  \<^verbatim>\<open>getDirectoryStructure(dir)\<close> (server.js, 162-197). The arguments of the model
  are the global \<^verbatim>\<open>projectRoot\<close> that the function reads, \<^verbatim>\<open>dir\<close>, and the
  filesystem entry found at \<^verbatim>\<open>dir\<close>. \<open>process_items\<close> is the \<^verbatim>\<open>for\<close> loop over
  \<^verbatim>\<open>items\<close> with the accumulator \<^verbatim>\<open>structure\<close>; each listed name comes with the
  entry that \<^verbatim>\<open>stat(join(dir, item))\<close> looks at. A rejected \<^verbatim>\<open>stat\<close> is caught
  inside the loop and the item is skipped; a rejected \<^verbatim>\<open>readdir\<close> is caught by the
  outer handler, which returns the empty array. The function never throws.
\<close>

fun getDirectoryStructure :: "path \<Rightarrow> path \<Rightarrow> fsnode \<Rightarrow> node list"
  and process_items :: "path \<Rightarrow> path \<Rightarrow> (string \<times> fsnode) list \<Rightarrow> node list \<Rightarrow> node list"
where
  "getDirectoryStructure projectRoot dir (FsNode st err entries) =
     (case err of
        Some e \<Rightarrow> []
      | None \<Rightarrow> process_items projectRoot dir entries [])"
| "process_items projectRoot dir [] structure = structure"
| "process_items projectRoot dir ((item, child) # rest) structure =
     (case nstat child of
        Inl e \<Rightarrow> process_items projectRoot dir rest structure
      | Inr stats \<Rightarrow>
          if item = ''node_modules'' \<or> item = ''.git''
          then process_items projectRoot dir rest structure
          else process_items projectRoot dir rest
                 (structure @
                  [Node item
                        (relative projectRoot (join dir item))
                        (if isDirectory stats then Directory else File)
                        (if isFile stats then Some (st_size stats) else None)
                        (if isDirectory stats
                         then Some (getDirectoryStructure projectRoot (join dir item) child)
                         else None)]))"

text \<open>Every name that occurs in a node and below it.\<close>

fun all_names :: "node \<Rightarrow> string list" where
  "all_names (Node n p t s ch) =
     n # (case ch of None \<Rightarrow> [] | Some cs \<Rightarrow> concat (map all_names cs))"

text \<open>
  The body of the loop for one item, as a partial function: the node that the item
  contributes, if any. It is used to describe the loop, not to define it.
\<close>

definition item_node :: "path \<Rightarrow> path \<Rightarrow> string \<times> fsnode \<Rightarrow> node option" where
  "item_node projectRoot dir e =
     (case nstat (snd e) of
        Inl err \<Rightarrow> None
      | Inr stats \<Rightarrow>
          if fst e = ''node_modules'' \<or> fst e = ''.git'' then None
          else Some (Node (fst e)
                        (relative projectRoot (join dir (fst e)))
                        (if isDirectory stats then Directory else File)
                        (if isFile stats then Some (st_size stats) else None)
                        (if isDirectory stats
                         then Some (getDirectoryStructure projectRoot (join dir (fst e)) (snd e))
                         else None)))"

subsection \<open>The walk, one awaited call at a time\<close>

text \<open>
  \<^verbatim>\<open>getDirectoryStructure\<close> is an \<^verbatim>\<open>async\<close> function: it stops at every
  \<^verbatim>\<open>await readdir(dir)\<close> and \<^verbatim>\<open>await stat(path)\<close>, other handlers run in between,
  and when it goes on it finds the filesystem and the global \<^verbatim>\<open>projectRoot\<close> as they
  are by then (\<^verbatim>\<open>relative(projectRoot, path)\<close> reads the global for each item, after
  the \<^verbatim>\<open>stat\<close> of that item). A suspended walk is what the function holds at such a
  point: the directory, the item whose \<^verbatim>\<open>stat\<close> is awaited, the items still to come,
  the array \<^verbatim>\<open>structure\<close>, and one frame for every call further out that waits in
  \<^verbatim>\<open>node.children = await getDirectoryStructure(path)\<close> with its node, the rest of its
  items and its \<^verbatim>\<open>structure\<close>.
\<close>

datatype frame =
  Frame (f_dir: path) (f_node: node) (f_rest: "string list") (f_structure: "node list")

datatype walk =
  AwaitReaddir path "frame list"
| AwaitStat path string "string list" "node list" "frame list"

datatype walk_result = Done "node list" | Suspended walk

definition set_children :: "node \<Rightarrow> node list \<Rightarrow> node" where
  "set_children nd result =
     (case nd of Node n p t s ch \<Rightarrow> Node n p t s (Some result))"

text \<open>
  \<open>walk_return\<close>: a call returns \<open>result\<close>; the caller stores it as the children of
  its node, pushes the node and goes on with its loop, which either awaits the
  \<^verbatim>\<open>stat\<close> of the next item or is at its end, so that the caller returns as well.
  \<open>walk_loop\<close> is the head of the \<^verbatim>\<open>for\<close> loop. Neither reads the filesystem or a
  global.
\<close>

fun walk_return :: "node list \<Rightarrow> frame list \<Rightarrow> walk_result" where
  "walk_return result [] = Done result"
| "walk_return result (Frame dir nd rest structure # stack) =
     (case rest of
        [] \<Rightarrow> walk_return (structure @ [set_children nd result]) stack
      | item # rest' \<Rightarrow>
          Suspended (AwaitStat dir item rest' (structure @ [set_children nd result]) stack))"

definition walk_loop :: "path \<Rightarrow> string list \<Rightarrow> node list \<Rightarrow> frame list \<Rightarrow> walk_result" where
  "walk_loop dir items structure stack =
     (case items of
        [] \<Rightarrow> walk_return structure stack
      | item # rest \<Rightarrow> Suspended (AwaitStat dir item rest structure stack))"

text \<open>
  \<open>walk_step\<close>: the awaited call has completed on the filesystem \<open>root\<close>, and the walk
  runs up to its next \<^verbatim>\<open>await\<close> or to its end, reading \<open>projectRoot\<close> as it is now.
\<close>

definition walk_step :: "fsnode \<Rightarrow> path \<Rightarrow> walk \<Rightarrow> walk_result" where
  "walk_step root projectRoot w =
     (case w of
        AwaitReaddir dir stack \<Rightarrow>
          (case readdir root dir of
             Inl e \<Rightarrow> walk_return [] stack
           | Inr items \<Rightarrow> walk_loop dir items [] stack)
      | AwaitStat dir item rest structure stack \<Rightarrow>
          (case stat root (join dir item) of
             Inl e \<Rightarrow> walk_loop dir rest structure stack
           | Inr stats \<Rightarrow>
               if item = ''node_modules'' \<or> item = ''.git''
               then walk_loop dir rest structure stack
               else if isDirectory stats
               then Suspended
                      (AwaitReaddir (join dir item)
                         (Frame dir
                            (Node item (relative projectRoot (join dir item)) Directory
                               (if isFile stats then Some (st_size stats) else None) None)
                            rest structure # stack))
               else walk_loop dir rest
                      (structure @
                       [Node item (relative projectRoot (join dir item)) File
                          (if isFile stats then Some (st_size stats) else None) None])
                      stack))"

text \<open>The call \<^verbatim>\<open>getDirectoryStructure(dir)\<close> itself runs up to its first \<^verbatim>\<open>await\<close>.\<close>

definition walk_start :: "path \<Rightarrow> walk" where
  "walk_start dir = AwaitReaddir dir []"

text \<open>
  A walk during which nothing else happens: \<open>n\<close> awaited calls complete on the same
  filesystem and with the same \<open>projectRoot\<close>.
\<close>

fun walk_run :: "nat \<Rightarrow> fsnode \<Rightarrow> path \<Rightarrow> walk_result \<Rightarrow> walk_result" where
  "walk_run 0 root projectRoot r = r"
| "walk_run (Suc n) root projectRoot (Done result) = Done result"
| "walk_run (Suc n) root projectRoot (Suspended w) =
     walk_run n root projectRoot (walk_step root projectRoot w)"

text \<open>No directory lists a name twice.\<close>

fun distinct_names :: "fsnode \<Rightarrow> bool" where
  "distinct_names (FsNode st err entries) =
     (distinct (map fst entries) \<and> list_all (\<lambda>e. distinct_names (snd e)) entries)"

section \<open>The server state\<close>

text \<open>
  A WebSocket client as the server uses it: its \<^verbatim>\<open>readyState\<close> (1 is OPEN) and
  whether a call of \<^verbatim>\<open>client.send\<close> throws. Both belong to the \<^verbatim>\<open>ws\<close> library,
  so they are parameters of the model; \<open>cid\<close> names the connection.
\<close>

record client =
  cid :: nat
  readyState :: nat
  sendThrows :: bool

text \<open>
  The \<^verbatim>\<open>content\<close> of a \<^verbatim>\<open>structure\<close> message: an object literal with the four
  properties \<^verbatim>\<open>name\<close>, \<^verbatim>\<open>path\<close>, \<^verbatim>\<open>type\<close> and \<^verbatim>\<open>children\<close> (it has no
  \<^verbatim>\<open>size\<close>).
\<close>

record content =
  c_name :: string
  c_path :: string
  c_type :: node_type
  c_children :: "node list"

text \<open>The three messages the server sends, by their \<^verbatim>\<open>type\<close>.\<close>

datatype message =
  Structure content
| FileChange string
| ErrorMessage string

datatype server_error =
  FsError fs_error
| NotADirectory
| TypeError
| SendFailed
| WatchFailed

text \<open>
  An \<^verbatim>\<open>FSWatcher\<close> that \<^verbatim>\<open>fs.watch\<close> returned: the directory it watches and
  whether it is still subscribed. \<open>sessions\<close> below holds every watcher created so
  far; the variable \<^verbatim>\<open>watcher\<close> refers to one of them by its index.
\<close>

record session =
  rootPath :: path
  active :: bool

datatype os_event = WatchStarted nat | WatchClosed nat

text \<open>
  The module-level variables \<^verbatim>\<open>projectRoot\<close>, \<^verbatim>\<open>watcher\<close>,
  \<^verbatim>\<open>recentProjects\<close> (a \<^verbatim>\<open>Set\<close> of strings, kept as the list of its elements in
  insertion order) and \<^verbatim>\<open>wss.clients\<close> (also a \<^verbatim>\<open>Set\<close>), and what the server did
  to the outside: the watchers it created, the order in which it started and closed
  them (\<open>os_trace\<close>), and the messages it handed to \<^verbatim>\<open>client.send\<close> without an
  exception, oldest first, each with the client it went to (\<open>wire\<close>), and the
  files it wrote with their content (\<open>written\<close>).
\<close>

record state =
  projectRoot :: path
  watcher :: "nat option"
  recentProjects :: "string list"
  clients :: "client list"
  sessions :: "session list"
  os_trace :: "os_event list"
  wire :: "(nat \<times> message) list"
  written :: "(path \<times> string) list"

text \<open>
  What the server finds outside the process at one moment: the working directory, the
  filesystem, and whether \<^verbatim>\<open>fs.watch\<close> throws.
\<close>

record env =
  cwd :: path
  fs :: fsnode
  watchThrows :: bool

text \<open>An absolute normalised path as the string the code holds.\<close>

definition path_string :: "path \<Rightarrow> string" where
  "path_string p = ''/'' @ join_with ''/'' p"

subsection \<open>A JavaScript \<^verbatim>\<open>Set\<close> in insertion order\<close>

definition set_add :: "'a \<Rightarrow> 'a list \<Rightarrow> 'a list" where
  "set_add x xs = (if x \<in> set xs then xs else xs @ [x])"

definition set_delete :: "'a \<Rightarrow> 'a list \<Rightarrow> 'a list" where
  "set_delete x xs = removeAll x xs"

definition set_from_array :: "'a list \<Rightarrow> 'a list" where
  "set_from_array xs = foldl (\<lambda>acc x. set_add x acc) [] xs"

subsection \<open>\<^verbatim>\<open>broadcastToClients\<close> (server.js, 199-209)\<close>

text \<open>
  The \<^verbatim>\<open>forEach\<close> over the clients: a client that is not OPEN is passed over, a
  \<^verbatim>\<open>send\<close> that throws ends the loop and the exception leaves the function, since
  nothing catches it. The function does not touch \<^verbatim>\<open>wss.clients\<close>.
\<close>

fun forEach_send :: "message \<Rightarrow> client list \<Rightarrow> (nat \<times> message) list
                       \<Rightarrow> server_error option \<times> (nat \<times> message) list" where
  "forEach_send m [] w = (None, w)"
| "forEach_send m (c # cs) w =
     (if readyState c = 1
      then (if sendThrows c then (Some SendFailed, w)
            else forEach_send m cs (w @ [(cid c, m)]))
      else forEach_send m cs w)"

definition broadcastToClients :: "message \<Rightarrow> state \<Rightarrow> server_error option \<times> state" where
  "broadcastToClients message s =
     (if length (clients s) = 0 then (None, s)
      else (case forEach_send message (clients s) (wire s) of
              (e, w) \<Rightarrow> (e, s\<lparr>wire := w\<rparr>)))"

text \<open>A call \<^verbatim>\<open>ws.send(...)\<close> on one socket, as the connection handlers make it.\<close>

definition ws_send :: "client \<Rightarrow> message \<Rightarrow> state \<Rightarrow> server_error option \<times> state" where
  "ws_send ws m s =
     (if sendThrows ws then (Some SendFailed, s)
      else (None, s\<lparr>wire := wire s @ [(cid ws, m)]\<rparr>))"

subsection \<open>\<^verbatim>\<open>setupWatcher\<close> (server.js, 211-246)\<close>

text \<open>
  \<^verbatim>\<open>watcher = watch(projectRoot, ...)\<close>: if \<^verbatim>\<open>watch\<close> throws, the variable keeps
  its value. \<^verbatim>\<open>watcher.close()\<close> unsubscribes the watcher it is called on.
\<close>

definition setupWatcher :: "env \<Rightarrow> state \<Rightarrow> server_error option \<times> state" where
  "setupWatcher e s =
     (if watchThrows e then (Some WatchFailed, s)
      else (None, s\<lparr>watcher := Some (length (sessions s)),
                     sessions := sessions s @ [\<lparr>rootPath = projectRoot s, active = True\<rparr>],
                     os_trace := os_trace s @ [WatchStarted (length (sessions s))]\<rparr>))"

definition watcher_close :: "nat \<Rightarrow> state \<Rightarrow> state" where
  "watcher_close w s =
     s\<lparr>sessions := (if w < length (sessions s)
                     then (sessions s)[w := (sessions s ! w)\<lparr>active := False\<rparr>]
                     else sessions s),
       os_trace := os_trace s @ [WatchClosed w]\<rparr>"

subsection \<open>Handlers and their suspended parts\<close>

datatype http_response = Json_success | Status500 server_error

text \<open>
  Every handler of the server is an \<^verbatim>\<open>async\<close> function. It runs without interruption
  from the event that calls it to its first \<^verbatim>\<open>await\<close>, and from the completion of an
  awaited call to the next \<^verbatim>\<open>await\<close> or to its end; between these parts other
  handlers run. A task is a handler that waits at an \<^verbatim>\<open>await\<close>, with the local
  variables it still needs:
  \<^item> the handler of \<^verbatim>\<open>/api/set-project\<close> at \<^verbatim>\<open>await stat(resolvedPath)\<close> (line 103),
    at \<^verbatim>\<open>await writeFile(...)\<close> (119) and at
    \<^verbatim>\<open>await getDirectoryStructure(projectRoot)\<close> (131), with the number of its request;
  \<^item> the callback of the watcher at \<^verbatim>\<open>await getDirectoryStructure(projectRoot)\<close> (228);
  \<^item> the handlers of a connection (254) and of a message (276) at the same call, with
    their socket.
\<close>

datatype task =
  SetProjectStat nat path
| SetProjectWrite nat
| SetProjectWalk nat walk
| WatchWalk walk
| ConnectionWalk client walk
| MessageWalk client walk

text \<open>
  The server: its variables and traces, the handlers that wait, the sockets on which
  the handler for messages is registered, the answers to the requests (each with the
  number of its request) and the exceptions that no handler caught.
\<close>

record server =
  globals :: state
  pending :: "task list"
  listeners :: "client list"
  responses :: "(nat \<times> http_response) list"
  rejections :: "server_error list"

subsection \<open>The callback of the watcher (server.js, 212-241)\<close>

text \<open>
  The callback is called once for each raw event; there is no timer in it. Up to its
  \<^verbatim>\<open>await\<close> it filters, broadcasts the \<^verbatim>\<open>fileChange\<close> message and calls
  \<^verbatim>\<open>getDirectoryStructure(projectRoot)\<close>. An exception of the broadcast is caught and
  logged, and the callback ends.
\<close>

definition watch_callback :: "env \<Rightarrow> string \<Rightarrow> string option \<Rightarrow> server \<Rightarrow> server" where
  "watch_callback e eventType filename sys =
     (case filename of
        None \<Rightarrow> sys
      | Some fname \<Rightarrow>
          if fname = [] then sys
          else if str_includes fname ''node_modules'' \<or> str_includes fname ''.git'' then sys
          else (case broadcastToClients (FileChange fname) (globals sys) of
                  (Some err, s1) \<Rightarrow> sys\<lparr>globals := s1\<rparr>
                | (None, s1) \<Rightarrow>
                    sys\<lparr>globals := s1,
                        pending := pending sys @ [WatchWalk (walk_start (projectRoot s1))]\<rparr>))"

text \<open>
  When the walk has ended, the callback builds the message, reading \<^verbatim>\<open>projectRoot\<close>
  again for the name (line 232), and broadcasts it; an exception is caught and logged.
\<close>

definition watch_callback_after_walk :: "env \<Rightarrow> walk \<Rightarrow> server \<Rightarrow> task option \<times> server" where
  "watch_callback_after_walk e w sys =
     (case walk_step (fs e) (projectRoot (globals sys)) w of
        Suspended w' \<Rightarrow> (Some (WatchWalk w'), sys)
      | Done structure \<Rightarrow>
          (None,
           sys\<lparr>globals :=
                 snd (broadcastToClients
                        (Structure \<lparr>c_name = base (projectRoot (globals sys)), c_path = ''/'',
                                    c_type = Directory, c_children = structure\<rparr>)
                        (globals sys))\<rparr>))"

text \<open>The handler of the watcher's \<^verbatim>\<open>error\<close> event (243-245): it logs.\<close>

definition watcher_on_error :: "string \<Rightarrow> server \<Rightarrow> server" where
  "watcher_on_error err sys = sys"

subsection \<open>\<^verbatim>\<open>POST /api/set-project\<close> (server.js, 95-147)\<close>

text \<open>
  The request body is the \<^verbatim>\<open>path\<close> property if it is a string; \<open>None\<close> stands for
  a body without one, on which \<^verbatim>\<open>resolve\<close> throws a \<^verbatim>\<open>TypeError\<close>. Every exception
  ends in the handler's \<^verbatim>\<open>catch\<close>, which answers with status 500 and leaves the
  variables as they are at that point.
\<close>

definition respond :: "nat \<Rightarrow> http_response \<Rightarrow> server \<Rightarrow> server" where
  "respond rid r sys = sys\<lparr>responses := responses sys @ [(rid, r)]\<rparr>"

text \<open>Lines 97-103: up to \<^verbatim>\<open>await stat(resolvedPath)\<close>.\<close>

definition set_project_request :: "env \<Rightarrow> nat \<Rightarrow> string option \<Rightarrow> server \<Rightarrow> server" where
  "set_project_request e rid body sys =
     (case body of
        None \<Rightarrow> respond rid (Status500 TypeError) sys
      | Some p \<Rightarrow> sys\<lparr>pending := pending sys @ [SetProjectStat rid (resolve (cwd e) p)]\<rparr>)"

text \<open>
  Lines 109-115: the assignment to \<^verbatim>\<open>projectRoot\<close>, \<^verbatim>\<open>recentProjects.add\<close> and the
  deletion of the first element of the set when it has more than ten.
\<close>

definition set_project_update :: "path \<Rightarrow> state \<Rightarrow> state" where
  "set_project_update resolvedPath s =
     (let s1 = s\<lparr>projectRoot := resolvedPath\<rparr>;
          s2 = s1\<lparr>recentProjects :=
                    set_add (path_string resolvedPath) (recentProjects s1)\<rparr>
      in if length (recentProjects s2) > 10
         then (case recentProjects s2 of
                 [] \<Rightarrow> s2
               | first # _ \<Rightarrow>
                   s2\<lparr>recentProjects := set_delete first (recentProjects s2)\<rparr>)
         else s2)"

text \<open>
  Line 119: \<^verbatim>\<open>writeFile(RECENT_PROJECTS_FILE, Array.from(recentProjects).join('\n'))\<close>.
  The file is in the working directory. When that lies below the watched directory,
  the raw events of this write reach the callback of the watcher like any others.
\<close>

definition write_recent_projects :: "env \<Rightarrow> state \<Rightarrow> state" where
  "write_recent_projects e s =
     s\<lparr>written := written s @
          [(resolve (cwd e) ''.recent_projects'',
            join_with [CHR 0x0A] (recentProjects s))]\<rparr>"

text \<open>
  Lines 103-119, when \<^verbatim>\<open>stat\<close> has completed: the check, the update, and the call of
  \<^verbatim>\<open>writeFile\<close>, which is awaited.
\<close>

definition set_project_after_stat :: "env \<Rightarrow> nat \<Rightarrow> path \<Rightarrow> server \<Rightarrow> task option \<times> server" where
  "set_project_after_stat e rid resolvedPath sys =
     (case stat (fs e) resolvedPath of
        Inl err \<Rightarrow> (None, respond rid (Status500 (FsError err)) sys)
      | Inr stats \<Rightarrow>
          if \<not> isDirectory stats then (None, respond rid (Status500 NotADirectory) sys)
          else (Some (SetProjectWrite rid),
                sys\<lparr>globals :=
                      write_recent_projects e
                        (set_project_update resolvedPath (globals sys))\<rparr>))"

text \<open>
  Lines 120-131, when \<^verbatim>\<open>writeFile\<close> has completed (its failure is caught and logged):
  the watcher is closed if there is one, \<^verbatim>\<open>setupWatcher()\<close> starts a new one, and
  \<^verbatim>\<open>getDirectoryStructure(projectRoot)\<close> is called.
\<close>

definition restart_watcher :: "env \<Rightarrow> state \<Rightarrow> server_error option \<times> state" where
  "restart_watcher e s =
     setupWatcher e (case watcher s of
                       Some w \<Rightarrow> watcher_close w s
                     | None \<Rightarrow> s)"

definition set_project_after_write :: "env \<Rightarrow> nat \<Rightarrow> server \<Rightarrow> task option \<times> server" where
  "set_project_after_write e rid sys =
     (case restart_watcher e (globals sys) of
        (Some err, s5) \<Rightarrow> (None, respond rid (Status500 err) (sys\<lparr>globals := s5\<rparr>))
      | (None, s5) \<Rightarrow>
          (Some (SetProjectWalk rid (walk_start (projectRoot s5))), sys\<lparr>globals := s5\<rparr>))"

text \<open>
  Lines 131-142, when the walk has ended: the broadcast of the structure, with
  \<^verbatim>\<open>projectRoot\<close> read again for the name (135), and the answer.
\<close>

definition set_project_after_walk :: "env \<Rightarrow> nat \<Rightarrow> walk \<Rightarrow> server \<Rightarrow> task option \<times> server" where
  "set_project_after_walk e rid w sys =
     (case walk_step (fs e) (projectRoot (globals sys)) w of
        Suspended w' \<Rightarrow> (Some (SetProjectWalk rid w'), sys)
      | Done structure \<Rightarrow>
          (case broadcastToClients
                  (Structure \<lparr>c_name = base (projectRoot (globals sys)), c_path = ''/'',
                              c_type = Directory, c_children = structure\<rparr>)
                  (globals sys) of
             (Some err, s6) \<Rightarrow> (None, respond rid (Status500 err) (sys\<lparr>globals := s6\<rparr>))
           | (None, s6) \<Rightarrow> (None, respond rid Json_success (sys\<lparr>globals := s6\<rparr>))))"

subsection \<open>WebSocket connections (server.js, 249-299)\<close>

text \<open>
  \<^verbatim>\<open>wss.on('connection', ...)\<close>: the library has added the socket to
  \<^verbatim>\<open>wss.clients\<close> when the handler runs, and the handler calls
  \<^verbatim>\<open>getDirectoryStructure(projectRoot)\<close>. When the walk has ended it sends the
  structure, with \<^verbatim>\<open>projectRoot\<close> read again for the name (258). If that \<^verbatim>\<open>send\<close>
  throws, the handler sends an error message instead; an exception of the second
  \<^verbatim>\<open>send\<close> is not caught. Only then, at line 272, the handler for the messages of
  the socket is registered.
\<close>

definition on_connection :: "env \<Rightarrow> client \<Rightarrow> server \<Rightarrow> server" where
  "on_connection e ws sys =
     sys\<lparr>globals := (globals sys)\<lparr>clients := clients (globals sys) @ [ws]\<rparr>,
         pending := pending sys @ [ConnectionWalk ws (walk_start (projectRoot (globals sys)))]\<rparr>"

definition on_connection_after_walk :: "env \<Rightarrow> client \<Rightarrow> walk \<Rightarrow> server \<Rightarrow> task option \<times> server" where
  "on_connection_after_walk e ws w sys =
     (case walk_step (fs e) (projectRoot (globals sys)) w of
        Suspended w' \<Rightarrow> (Some (ConnectionWalk ws w'), sys)
      | Done structure \<Rightarrow>
          (case ws_send ws
                  (Structure \<lparr>c_name = base (projectRoot (globals sys)), c_path = ''/'',
                              c_type = Directory, c_children = structure\<rparr>)
                  (globals sys) of
             (None, s1) \<Rightarrow>
               (None, sys\<lparr>globals := s1, listeners := listeners sys @ [ws]\<rparr>)
           | (Some err, s1) \<Rightarrow>
               (case ws_send ws (ErrorMessage ''Failed to load project structure'') s1 of
                  (None, s2) \<Rightarrow>
                    (None, sys\<lparr>globals := s2, listeners := listeners sys @ [ws]\<rparr>)
                | (Some err2, s2) \<Rightarrow>
                    (None, sys\<lparr>globals := s2, rejections := rejections sys @ [err2]\<rparr>))))"

text \<open>
  A message from a client: text that \<^verbatim>\<open>JSON.parse\<close> rejects or whose value has no
  properties (\<open>Malformed\<close>), an object of type \<^verbatim>\<open>getStructure\<close>, or anything else.
\<close>

datatype inbound = Malformed | GetStructure | Other

definition on_message :: "env \<Rightarrow> client \<Rightarrow> inbound \<Rightarrow> server \<Rightarrow> server" where
  "on_message e ws data sys =
     (if ws \<notin> set (listeners sys) then sys
      else
        (case data of
           Malformed \<Rightarrow>
             (case ws_send ws (ErrorMessage ''Failed to process request'') (globals sys) of
                (None, s1) \<Rightarrow> sys\<lparr>globals := s1\<rparr>
              | (Some err, s1) \<Rightarrow> sys\<lparr>globals := s1, rejections := rejections sys @ [err]\<rparr>)
         | Other \<Rightarrow> sys
         | GetStructure \<Rightarrow>
             sys\<lparr>pending := pending sys
                   @ [MessageWalk ws (walk_start (projectRoot (globals sys)))]\<rparr>))"

definition on_message_after_walk :: "env \<Rightarrow> client \<Rightarrow> walk \<Rightarrow> server \<Rightarrow> task option \<times> server" where
  "on_message_after_walk e ws w sys =
     (case walk_step (fs e) (projectRoot (globals sys)) w of
        Suspended w' \<Rightarrow> (Some (MessageWalk ws w'), sys)
      | Done structure \<Rightarrow>
          (case ws_send ws
                  (Structure \<lparr>c_name = base (projectRoot (globals sys)), c_path = ''/'',
                              c_type = Directory, c_children = structure\<rparr>)
                  (globals sys) of
             (None, s1) \<Rightarrow> (None, sys\<lparr>globals := s1\<rparr>)
           | (Some err, s1) \<Rightarrow>
               (case ws_send ws (ErrorMessage ''Failed to process request'') s1 of
                  (None, s2) \<Rightarrow> (None, sys\<lparr>globals := s2\<rparr>)
                | (Some err2, s2) \<Rightarrow>
                    (None, sys\<lparr>globals := s2, rejections := rejections sys @ [err2]\<rparr>))))"

subsection \<open>Start of the module, events and schedules\<close>

text \<open>
  The top level of the module: \<^verbatim>\<open>projectRoot = resolve('../')\<close>, the attempt to read
  the recent projects with \<^verbatim>\<open>readdir\<close>, and the first \<^verbatim>\<open>setupWatcher()\<close>, whose
  exception would end the process. No handler is registered before this has ended.
\<close>

definition startup :: "env \<Rightarrow> server_error + server" where
  "startup e =
     (case setupWatcher e
             \<lparr>projectRoot = resolve (cwd e) ''../'',
              watcher = None,
              recentProjects =
                (case readdir (fs e) (resolve (cwd e) ''.recent_projects'') of
                   Inr recentProjectsData \<Rightarrow> set_from_array recentProjectsData
                 | Inl err \<Rightarrow> []),
              clients = [], sessions = [], os_trace = [], wire = [], written = []\<rparr> of
        (Some err, s) \<Rightarrow> Inl err
      | (None, s) \<Rightarrow>
          Inr \<lparr>globals = s, pending = [], listeners = [], responses = [], rejections = []\<rparr>)"

text \<open>
  What makes the server run a part of a handler: a socket connects, a client sends a
  message, a request arrives (with its number), the watcher reports a raw event or an
  error, or the call that the waiting handler number \<open>i\<close> awaits completes.
\<close>

datatype event =
  Connection client
| Message client inbound
| SetProject nat "string option"
| WatchEvent string "string option"
| WatcherError string
| Resume nat

text \<open>The part of a waiting handler that runs when its awaited call has completed.\<close>

fun resume :: "env \<Rightarrow> task \<Rightarrow> server \<Rightarrow> task option \<times> server" where
  "resume e (SetProjectStat rid resolvedPath) sys = set_project_after_stat e rid resolvedPath sys"
| "resume e (SetProjectWrite rid) sys = set_project_after_write e rid sys"
| "resume e (SetProjectWalk rid w) sys = set_project_after_walk e rid w sys"
| "resume e (WatchWalk w) sys = watch_callback_after_walk e w sys"
| "resume e (ConnectionWalk ws w) sys = on_connection_after_walk e ws w sys"
| "resume e (MessageWalk ws w) sys = on_message_after_walk e ws w sys"

text \<open>
  One part of one handler, run on the environment of that moment. A handler that
  waits again keeps its place among the waiting handlers; one that has ended is
  removed.
\<close>

definition resume_at :: "env \<Rightarrow> nat \<Rightarrow> server \<Rightarrow> server" where
  "resume_at e i sys =
     (if i < length (pending sys)
      then (case resume e (pending sys ! i) sys of
              (Some t, sys1) \<Rightarrow> sys1\<lparr>pending := (pending sys1)[i := t]\<rparr>
            | (None, sys1) \<Rightarrow>
                sys1\<lparr>pending := take i (pending sys1) @ drop (Suc i) (pending sys1)\<rparr>)
      else sys)"

fun step :: "env \<Rightarrow> event \<Rightarrow> server \<Rightarrow> server" where
  "step e (Connection ws) sys = on_connection e ws sys"
| "step e (Message ws data) sys = on_message e ws data sys"
| "step e (SetProject rid body) sys = set_project_request e rid body sys"
| "step e (WatchEvent eventType filename) sys = watch_callback e eventType filename sys"
| "step e (WatcherError err) sys = watcher_on_error err sys"
| "step e (Resume i) sys = resume_at e i sys"

text \<open>
  A schedule: the parts of handlers that run, in their order, each with the
  environment of its moment.
\<close>

fun run :: "(env \<times> event) list \<Rightarrow> server \<Rightarrow> server" where
  "run [] sys = sys"
| "run ((e, ev) # sched) sys = run sched (step e ev sys)"

section \<open>Notions used in the statements\<close>

text \<open>
  The clients that a broadcast reaches: the OPEN ones, up to the first whose
  \<^verbatim>\<open>send\<close> throws.
\<close>

definition reached :: "client list \<Rightarrow> client list" where
  "reached cs = takeWhile (\<lambda>c. \<not> sendThrows c) (filter (\<lambda>c. readyState c = 1) cs)"

definition open_clients :: "state \<Rightarrow> client list" where
  "open_clients s = filter (\<lambda>c. readyState c = 1) (clients s)"

definition is_fileChange :: "message \<Rightarrow> bool" where
  "is_fileChange m = (case m of FileChange f \<Rightarrow> True | _ \<Rightarrow> False)"

definition is_structure :: "message \<Rightarrow> bool" where
  "is_structure m = (case m of Structure c \<Rightarrow> True | _ \<Rightarrow> False)"

text \<open>
  The messages sent so far to the client \<open>c\<close>, oldest first, and how many of them
  satisfy \<open>P\<close>.
\<close>

definition sent_to :: "nat \<Rightarrow> state \<Rightarrow> message list" where
  "sent_to c s = map snd (filter (\<lambda>(c', m). c' = c) (wire s))"

definition count_to :: "nat \<Rightarrow> (message \<Rightarrow> bool) \<Rightarrow> state \<Rightarrow> nat" where
  "count_to c P s = length (filter P (sent_to c s))"

text \<open>The raw events for which the callback goes on to broadcast.\<close>

definition passes_filter :: "string option \<Rightarrow> bool" where
  "passes_filter filename =
     (case filename of
        None \<Rightarrow> False
      | Some fname \<Rightarrow> fname \<noteq> [] \<and> \<not> str_includes fname ''node_modules''
                       \<and> \<not> str_includes fname ''.git'')"

definition passing :: "event \<Rightarrow> bool" where
  "passing ev =
     (case ev of WatchEvent eventType filename \<Rightarrow> passes_filter filename | _ \<Rightarrow> False)"

text \<open>
  A schedule of the watcher alone: raw events and the completions that waiting
  callbacks await.
\<close>

definition watcher_only :: "event \<Rightarrow> bool" where
  "watcher_only ev =
     (case ev of WatchEvent eventType filename \<Rightarrow> True | Resume i \<Rightarrow> True | _ \<Rightarrow> False)"

definition is_watch_walk :: "task \<Rightarrow> bool" where
  "is_watch_walk t = (case t of WatchWalk w \<Rightarrow> True | _ \<Rightarrow> False)"

text \<open>
  The object literal of a \<^verbatim>\<open>structure\<close> message when the root is \<open>root\<close> and the
  children are \<^verbatim>\<open>getDirectoryStructure(root)\<close> on one filesystem.
\<close>

definition root_content :: "fsnode \<Rightarrow> path \<Rightarrow> content" where
  "root_content fsroot root =
     \<lparr>c_name = base root, c_path = ''/'', c_type = Directory,
      c_children = getDirectoryStructure root root (lookup fsroot root)\<rparr>"

text \<open>
  The set of recent projects after \<^verbatim>\<open>add\<close> and the deletion of the first element
  beyond ten elements (server.js, 112-115), as a function of the previous set.
\<close>

definition recent_after :: "string \<Rightarrow> string list \<Rightarrow> string list" where
  "recent_after p rs =
     (if length (set_add p rs) > 10
      then (case set_add p rs of [] \<Rightarrow> [] | first # _ \<Rightarrow> set_delete first (set_add p rs))
      else set_add p rs)"

text \<open>The watchers after \<^verbatim>\<open>if (watcher) watcher.close()\<close>.\<close>

definition closed_sessions :: "nat option \<Rightarrow> session list \<Rightarrow> session list" where
  "closed_sessions w ss =
     (case w of
        None \<Rightarrow> ss
      | Some j \<Rightarrow> if j < length ss then ss[j := (ss ! j)\<lparr>active := False\<rparr>] else ss)"

text \<open>The indices of the watchers that are subscribed, and the first of them.\<close>

definition active_sessions :: "state \<Rightarrow> nat list" where
  "active_sessions s = filter (\<lambda>j. active (sessions s ! j)) [0..<length (sessions s)]"

definition current_active :: "state \<Rightarrow> nat option" where
  "current_active s = (case active_sessions s of [] \<Rightarrow> None | j # _ \<Rightarrow> Some j)"

text \<open>Only the watcher that the variable \<^verbatim>\<open>watcher\<close> refers to can be subscribed.\<close>

definition watcher_inv :: "state \<Rightarrow> bool" where
  "watcher_inv s =
     list_all (\<lambda>j. watcher s = Some j) (active_sessions s)"

text \<open>
  Replaying a trace of the watchers from the one subscribed at its start (if any):
  the result is the watcher subscribed at the end, and \<open>None\<close> if at some point a
  watcher was started while another one was still subscribed.
\<close>

fun replay :: "os_event list \<Rightarrow> nat option \<Rightarrow> nat option option" where
  "replay [] a = Some a"
| "replay (WatchClosed j # t) a = replay t (if a = Some j then None else a)"
| "replay (WatchStarted j # t) a = (if a = None then replay t (Some j) else None)"

text \<open>
  The handlers of \<^verbatim>\<open>/api/set-project\<close> that have restarted the watcher and wait
  for their walk, and the answers of a request that has restarted the watcher.
\<close>

definition is_set_project_walk :: "task \<Rightarrow> bool" where
  "is_set_project_walk t = (case t of SetProjectWalk rid w \<Rightarrow> True | _ \<Rightarrow> False)"

definition after_restart :: "nat \<times> http_response \<Rightarrow> bool" where
  "after_restart r = (snd r = Json_success \<or> snd r = Status500 SendFailed)"

text \<open>
  What one event can do to the variables of the module: send messages, register a
  client, take a new project root (109-119), or restart the watcher (125-128).
\<close>

definition globals_step :: "env \<Rightarrow> state \<Rightarrow> state \<Rightarrow> bool" where
  "globals_step e s s' \<longleftrightarrow>
     (\<exists>new. s' = s\<lparr>wire := wire s @ new\<rparr>)
     \<or> (\<exists>ws. s' = s\<lparr>clients := clients s @ [ws]\<rparr>)
     \<or> (\<exists>p. s' = write_recent_projects e (set_project_update p s))
     \<or> s' = snd (restart_watcher e s)"

text \<open>
  The watcher created last is the one subscribed, and the variable \<^verbatim>\<open>watcher\<close>
  refers to it.
\<close>

definition newest_active :: "state \<Rightarrow> bool" where
  "newest_active s \<longleftrightarrow>
     sessions s \<noteq> [] \<and> active_sessions s = [length (sessions s) - 1]
     \<and> watcher s = Some (length (sessions s) - 1)"

text \<open>
  The requests that have restarted the watcher: those that wait for their walk and
  those answered after it.
\<close>

definition restarted :: "server \<Rightarrow> nat" where
  "restarted sys =
     length (filter is_set_project_walk (pending sys))
     + length (filter after_restart (responses sys))"

text \<open>
  The \<^verbatim>\<open>fileChange\<close> messages that the raw events of a schedule give rise to, in the
  order of the events.
\<close>

definition fileChanges_of :: "(env \<times> event) list \<Rightarrow> message list" where
  "fileChanges_of sched =
     concat (map (\<lambda>(e, ev). case ev of
                    WatchEvent eventType filename \<Rightarrow>
                      (case filename of
                         Some fname \<Rightarrow> if passes_filter filename then [FileChange fname] else []
                       | None \<Rightarrow> [])
                  | _ \<Rightarrow> []) sched)"

section \<open>Concrete inputs\<close>

text \<open>
  The filesystem of the scenario: \<^verbatim>\<open>/proj\<close> with \<^verbatim>\<open>a.txt\<close> (10 bytes),
  \<^verbatim>\<open>sub/b.txt\<close> (20 bytes) and \<^verbatim>\<open>node_modules/x.js\<close>; the server runs in
  \<^verbatim>\<open>/proj/app\<close>.
\<close>

definition proj_fs :: fsnode where
  "proj_fs = directory_of [(''proj'', directory_of
      [(''node_modules'', directory_of [(''x.js'', regular_file 7)]),
       (''sub'', directory_of [(''b.txt'', regular_file 20)]),
       (''a.txt'', regular_file 10)])]"

definition proj_env :: env where
  "proj_env = \<lparr>cwd = [''proj'', ''app''], fs = proj_fs, watchThrows = False\<rparr>"

text \<open>A project with the directories \<^verbatim>\<open>.git\<close> and \<^verbatim>\<open>.github\<close>.\<close>

definition github_fs :: fsnode where
  "github_fs = directory_of [(''proj'', directory_of
      [(''.git'', directory_of [(''HEAD'', regular_file 23)]),
       (''.github'', directory_of [(''ci.yml'', regular_file 99)])])]"

text \<open>
  The variables of a server on \<^verbatim>\<open>/proj\<close> with one open client, with two open clients,
  and with three clients of which the second is CLOSED (\<^verbatim>\<open>readyState\<close> 3).
\<close>

definition one_client :: state where
  "one_client =
     \<lparr>projectRoot = [''proj''], watcher = Some 0,
      recentProjects = [''/proj'', ''/proj/sub''],
      clients = [\<lparr>cid = 1, readyState = 1, sendThrows = False\<rparr>],
      sessions = [\<lparr>rootPath = [''proj''], active = True\<rparr>],
      os_trace = [WatchStarted 0], wire = [], written = []\<rparr>"

definition two_clients :: state where
  "two_clients =
     \<lparr>projectRoot = [''proj''], watcher = Some 0,
      recentProjects = [''/proj''],
      clients = [\<lparr>cid = 1, readyState = 1, sendThrows = False\<rparr>,
                 \<lparr>cid = 2, readyState = 1, sendThrows = False\<rparr>],
      sessions = [\<lparr>rootPath = [''proj''], active = True\<rparr>],
      os_trace = [WatchStarted 0], wire = [], written = []\<rparr>"

definition three_clients :: state where
  "three_clients =
     \<lparr>projectRoot = [''proj''], watcher = Some 0, recentProjects = [],
      clients = [\<lparr>cid = 1, readyState = 1, sendThrows = False\<rparr>,
                 \<lparr>cid = 2, readyState = 3, sendThrows = False\<rparr>,
                 \<lparr>cid = 3, readyState = 1, sendThrows = False\<rparr>],
      sessions = [\<lparr>rootPath = [''proj''], active = True\<rparr>],
      os_trace = [WatchStarted 0], wire = [], written = []\<rparr>"

text \<open>A server with these variables on which no handler waits.\<close>

definition idle :: "state \<Rightarrow> server" where
  "idle s =
     \<lparr>globals = s, pending = [], listeners = clients s, responses = [], rejections = []\<rparr>"

text \<open>
  Two requests, for \<^verbatim>\<open>/proj/sub\<close> and then for \<^verbatim>\<open>..\<close>, each followed by the completions
  its handler awaits: \<^verbatim>\<open>stat\<close>, \<^verbatim>\<open>writeFile\<close> and the calls of its walk.
\<close>

definition two_switches :: "(env \<times> event) list" where
  "two_switches =
     [(proj_env, SetProject 1 (Some ''/proj/sub'')), (proj_env, Resume 0), (proj_env, Resume 0),
      (proj_env, Resume 0), (proj_env, Resume 0),
      (proj_env, SetProject 2 (Some ''..'')), (proj_env, Resume 0), (proj_env, Resume 0),
      (proj_env, Resume 0), (proj_env, Resume 0), (proj_env, Resume 0), (proj_env, Resume 0),
      (proj_env, Resume 0), (proj_env, Resume 0)]"

text \<open>
  Two raw events of the watcher, one right after the other, followed by the
  completions that the two walks await.
\<close>

definition burst2 :: "(env \<times> event) list" where
  "burst2 =
     [(proj_env, WatchEvent ''change'' (Some ''a.txt'')),
      (proj_env, WatchEvent ''change'' (Some ''sub/b.txt''))]
     @ replicate 12 (proj_env, Resume 0)"

text \<open>
  A raw event for \<^verbatim>\<open>a.txt\<close>, then a request for \<^verbatim>\<open>/proj/sub\<close> that arrives while the walk
  of the callback is under way: the \<^verbatim>\<open>stat\<close> of the request completes after the
  first \<^verbatim>\<open>readdir\<close> of the walk and before its first \<^verbatim>\<open>stat\<close>.
\<close>

definition race :: "(env \<times> event) list" where
  "race =
     [(proj_env, WatchEvent ''change'' (Some ''a.txt'')),
      (proj_env, SetProject 1 (Some ''/proj/sub'')),
      (proj_env, Resume 0),
      (proj_env, Resume 1),
      (proj_env, Resume 0), (proj_env, Resume 0), (proj_env, Resume 0), (proj_env, Resume 0),
      (proj_env, Resume 0)]"

section \<open>Paths and strings\<close>

text \<open>
  \<open>str_includes\<close> is the substring test, and \<open>resolve\<close> normalises as \<^verbatim>\<open>path.resolve\<close>
  does.
\<close>

lemma str_includes_iff: "str_includes s pat \<longleftrightarrow> (\<exists>before after. s = before @ pat @ after)"
proof (induction s)
  case Nil
  then show ?case by auto
next
  case (Cons c cs)
  have "take (length pat) (c # cs) = pat \<longleftrightarrow> (\<exists>after. c # cs = pat @ after)"
    by (metis append_eq_conv_conj append_take_drop_id)
  moreover have "(\<exists>before after. c # cs = before @ pat @ after) \<longleftrightarrow>
      (\<exists>after. c # cs = pat @ after) \<or> (\<exists>before after. cs = before @ pat @ after)"
  proof
    assume "\<exists>before after. c # cs = before @ pat @ after"
    then obtain b a where ba: "c # cs = b @ pat @ a" by blast
    show "(\<exists>after. c # cs = pat @ after) \<or> (\<exists>before after. cs = before @ pat @ after)"
    proof (cases b)
      case Nil
      with ba show ?thesis by auto
    next
      case (Cons x xs)
      with ba have "cs = xs @ pat @ a" by simp
      then show ?thesis by blast
    qed
  next
    assume "(\<exists>after. c # cs = pat @ after) \<or> (\<exists>before after. cs = before @ pat @ after)"
    then show "\<exists>before after. c # cs = before @ pat @ after"
    proof
      assume "\<exists>after. c # cs = pat @ after"
      then obtain a where "c # cs = [] @ pat @ a" by auto
      then show ?thesis by blast
    next
      assume "\<exists>before after. cs = before @ pat @ after"
      then obtain b a where "c # cs = (c # b) @ pat @ a" by auto
      then show ?thesis by blast
    qed
  qed
  ultimately show ?case using Cons.IH by simp
qed

lemma resolve_examples:
  "resolve [''proj'', ''app''] ''../'' = [''proj'']"
  "resolve [''proj'', ''app''] ''/proj//sub/./x/..'' = [''proj'', ''sub'']"
  "resolve [''proj'', ''app''] ''lib'' = [''proj'', ''app'', ''lib'']"
  "resolve [''proj'', ''app''] ''/..'' = []"
  by (simp_all add: resolve_def normalize_step_def)

section \<open>The tree builder\<close>

lemma in_set_map_filter:
  "y \<in> set (List.map_filter f xs) \<longleftrightarrow> (\<exists>x\<in>set xs. f x = Some y)"
  by (induction xs) (auto split: option.splits)

lemma mset_map_filter:
  "mset (List.map_filter f xs) = image_mset (\<lambda>x. the (f x)) (filter_mset (\<lambda>x. f x \<noteq> None) (mset xs))"
  by (induction xs) (auto split: option.splits)

lemma process_items_map_filter:
  "process_items pr dir entries acc = acc @ List.map_filter (item_node pr dir) entries"
  by (induction entries arbitrary: acc)
     (auto simp: item_node_def split: sum.splits)

lemma getDirectoryStructure_listing:
  "getDirectoryStructure pr dir (FsNode st None entries) = List.map_filter (item_node pr dir) entries"
  by (simp add: process_items_map_filter)

lemma getDirectoryStructure_unreadable:
  "getDirectoryStructure pr dir (FsNode st (Some e) entries) = []"
  by simp

lemma relative_parts_under: "relative_parts root (root @ rest) = rest"
  by (induction root) auto

lemma relative_under: "relative root (root @ rest) = join_with ''/'' rest"
  by (simp add: relative_def relative_parts_under)

lemma item_node_SomeD:
  assumes "item_node pr dir e = Some nd"
  shows "node_name nd = fst e"
    and "fst e \<noteq> ''node_modules''" and "fst e \<noteq> ''.git''"
    and "node_children nd = None \<or>
         node_children nd = Some (getDirectoryStructure pr (join dir (fst e)) (snd e))"
  using assms by (auto simp: item_node_def split: sum.splits if_splits)

lemma built_names_not_ignored:
  "nd \<in> set (getDirectoryStructure pr dir n) \<Longrightarrow> x \<in> set (all_names nd)
     \<Longrightarrow> x \<noteq> ''node_modules'' \<and> x \<noteq> ''.git''"
proof (induction n arbitrary: pr dir nd)
  case (FsNode st err es)
  show ?case
  proof (cases err)
    case (Some e)
    with FsNode.prems show ?thesis by simp
  next
    case None
    with FsNode.prems(1) obtain e where e: "e \<in> set es" "item_node pr dir e = Some nd"
      by (auto simp: process_items_map_filter in_set_map_filter)
    note d = item_node_SomeD [OF e(2)]
    from FsNode.prems(2) consider "x = node_name nd"
      | cs where "node_children nd = Some cs" "x \<in> set (concat (map all_names cs))"
      by (cases nd) (auto split: option.splits)
    then show ?thesis
    proof cases
      case 1
      with d show ?thesis by simp
    next
      case 2
      with d(4) have cs: "cs = getDirectoryStructure pr (join dir (fst e)) (snd e)" by simp
      from 2(2) obtain nd' where nd': "nd' \<in> set cs" "x \<in> set (all_names nd')" by auto
      have "snd e \<in> Basic_BNFs.snds e" by (cases e) simp
      from FsNode.IH [OF e(1) this nd'(1) [unfolded cs] nd'(2)] show ?thesis .
    qed
  qed
qed

lemma built_names:
  "map node_name (getDirectoryStructure pr dir (FsNode st None entries)) =
     filter (\<lambda>item. item \<noteq> ''node_modules'' \<and> item \<noteq> ''.git'')
       (map fst (filter (\<lambda>(item, child). case nstat child of Inl err \<Rightarrow> False | Inr stats \<Rightarrow> True)
                   entries))"
proof -
  have "map node_name (List.map_filter (item_node pr dir) entries) =
     filter (\<lambda>item. item \<noteq> ''node_modules'' \<and> item \<noteq> ''.git'')
       (map fst (filter (\<lambda>(item, child). case nstat child of Inl err \<Rightarrow> False | Inr stats \<Rightarrow> True)
                   entries))"
    by (induction entries) (auto simp: item_node_def split: sum.splits)
  then show ?thesis by (simp add: process_items_map_filter)
qed

lemma item_node_file:
  "name \<noteq> ''node_modules'' \<Longrightarrow> name \<noteq> ''.git'' \<Longrightarrow>
   item_node root dir (name, regular_file n) =
     Some (Node name (relative root (join dir name)) File (Some n) None)"
  by (simp add: item_node_def regular_file_def)

lemma item_node_directory:
  "name \<noteq> ''node_modules'' \<Longrightarrow> name \<noteq> ''.git'' \<Longrightarrow>
   item_node root dir (name, directory_of es) =
     Some (Node name (relative root (join dir name)) Directory None
            (Some (List.map_filter (item_node root (join dir name)) es)))"
  by (simp add: item_node_def directory_of_def process_items_map_filter)

lemma item_node_ignored:
  "item_node root dir (''node_modules'', n) = None"
  by (simp add: item_node_def split: sum.splits)

text \<open>
  Claim C1. Let the root directory hold exactly the file \<^verbatim>\<open>a.txt\<close> of 10 bytes, the
  directory \<^verbatim>\<open>sub\<close> holding exactly the file \<^verbatim>\<open>b.txt\<close> of 20 bytes, and a directory
  \<^verbatim>\<open>node_modules\<close> holding \<^verbatim>\<open>x.js\<close>, listed in any order. Then
  \<^verbatim>\<open>getDirectoryStructure(root)\<close> returns exactly two nodes, the file node \<^verbatim>\<open>a.txt\<close>
  of size 10 and the directory node \<^verbatim>\<open>sub\<close> whose children are the one file node
  \<^verbatim>\<open>b.txt\<close> of size 20, and no node at any depth is named \<^verbatim>\<open>node_modules\<close>.
\<close>

theorem scenario_build:
  assumes root: "lookup fsroot root = directory_of entries"
    and entries: "mset entries =
      {#(''a.txt'', regular_file 10),
        (''sub'', directory_of [(''b.txt'', regular_file 20)]),
        (''node_modules'', directory_of ((''x.js'', xjs) # others))#}"
  shows "mset (getDirectoryStructure root root (lookup fsroot root)) =
           {#Node ''a.txt'' ''a.txt'' File (Some 10) None,
             Node ''sub'' ''sub'' Directory None
               (Some [Node ''b.txt'' ''sub/b.txt'' File (Some 20) None])#}
         \<and> length (getDirectoryStructure root root (lookup fsroot root)) = 2
         \<and> ''node_modules'' \<notin>
             set (concat (map all_names (getDirectoryStructure root root (lookup fsroot root))))"
proof -
  let ?r = "getDirectoryStructure root root (lookup fsroot root)"
  have a: "item_node root root (''a.txt'', regular_file 10) =
             Some (Node ''a.txt'' ''a.txt'' File (Some 10) None)"
    using relative_under [of root "[''a.txt'']"]
    by (simp add: item_node_file join_def)
  have b: "item_node root (root @ [''sub'']) (''b.txt'', regular_file 20) =
             Some (Node ''b.txt'' ''sub/b.txt'' File (Some 20) None)"
    using relative_under [of root "[''sub'', ''b.txt'']"]
    by (simp add: item_node_file join_def)
  have s: "item_node root root (''sub'', directory_of [(''b.txt'', regular_file 20)]) =
             Some (Node ''sub'' ''sub'' Directory None
                    (Some [Node ''b.txt'' ''sub/b.txt'' File (Some 20) None]))"
    using relative_under [of root "[''sub'']"] b
    by (simp add: item_node_directory join_def)
  have r: "?r = List.map_filter (item_node root root) entries"
    by (simp add: root directory_of_def process_items_map_filter)
  have m: "mset ?r = {#Node ''a.txt'' ''a.txt'' File (Some 10) None,
             Node ''sub'' ''sub'' Directory None
               (Some [Node ''b.txt'' ''sub/b.txt'' File (Some 20) None])#}"
    by (simp add: r mset_map_filter entries a s item_node_ignored)
  from m have "size (mset ?r) = 2" by simp
  then have l: "length ?r = 2" by simp
  have "''node_modules'' \<notin> set (concat (map all_names ?r))"
    using built_names_not_ignored by fastforce
  with m l show ?thesis by simp
qed

text \<open>
  The scenario with the listing order \<^verbatim>\<open>node_modules\<close>, \<^verbatim>\<open>sub\<close>, \<^verbatim>\<open>a.txt\<close>.
\<close>

theorem scenario_build_witness:
  "getDirectoryStructure [''proj''] [''proj''] (lookup proj_fs [''proj'']) =
     [Node ''sub'' ''sub'' Directory None
        (Some [Node ''b.txt'' ''sub/b.txt'' File (Some 20) None]),
      Node ''a.txt'' ''a.txt'' File (Some 10) None]
   \<and> mset (getDirectoryStructure [''proj''] [''proj''] (lookup proj_fs [''proj''])) =
           {#Node ''a.txt'' ''a.txt'' File (Some 10) None,
             Node ''sub'' ''sub'' Directory None
               (Some [Node ''b.txt'' ''sub/b.txt'' File (Some 20) None])#}"
proof -
  have l: "lookup proj_fs [''proj''] = directory_of
      [(''node_modules'', directory_of [(''x.js'', regular_file 7)]),
       (''sub'', directory_of [(''b.txt'', regular_file 20)]),
       (''a.txt'', regular_file 10)]"
    by (simp add: proj_fs_def directory_of_def)
  have v: "getDirectoryStructure [''proj''] [''proj''] (lookup proj_fs [''proj'']) =
     [Node ''sub'' ''sub'' Directory None
        (Some [Node ''b.txt'' ''sub/b.txt'' File (Some 20) None]),
      Node ''a.txt'' ''a.txt'' File (Some 10) None]"
    unfolding l by (simp add: directory_of_def regular_file_def relative_def join_def)
  from scenario_build [OF l, of "regular_file 7" "[]"] v show ?thesis by simp
qed

text \<open>
  Claim C6, as the code has it. When \<^verbatim>\<open>readdir\<close> rejects for the root (the path does
  not exist or is not a directory), \<^verbatim>\<open>getDirectoryStructure\<close> returns the empty array:
  its outer \<^verbatim>\<open>catch\<close> logs the error and no error reaches the caller.
\<close>

theorem missing_root_builds_empty:
  assumes "readdir fsroot root = Inl err"
  shows "getDirectoryStructure root root (lookup fsroot root) = []"
proof -
  obtain st re es where n: "lookup fsroot root = FsNode st re es"
    by (cases "lookup fsroot root") auto
  with assms have "re \<noteq> None"
    by (auto simp: readdir_def readdir_node_def split: option.splits)
  with n show ?thesis by auto
qed

theorem missing_root_builds_empty_witness:
  "readdir proj_fs [''nowhere''] = Inl ENOENT
   \<and> readdir proj_fs [''proj'', ''a.txt''] = Inl ENOTDIR
   \<and> getDirectoryStructure [''nowhere''] [''nowhere''] (lookup proj_fs [''nowhere'']) = []
   \<and> getDirectoryStructure [''proj'', ''a.txt''] [''proj'', ''a.txt'']
        (lookup proj_fs [''proj'', ''a.txt'']) = []"
proof -
  have 1: "readdir proj_fs [''nowhere''] = Inl ENOENT"
    by (simp add: readdir_def readdir_node_def proj_fs_def directory_of_def absent_def)
  have 2: "readdir proj_fs [''proj'', ''a.txt''] = Inl ENOTDIR"
    by (simp add: readdir_def readdir_node_def proj_fs_def directory_of_def regular_file_def)
  from missing_root_builds_empty [OF 1] missing_root_builds_empty [OF 2] 1 2
  show ?thesis by simp
qed

text \<open>
  Against claim C6 as stated: for a root that does not exist the build returns the
  empty array, the value it returns for an existing empty directory.
\<close>

theorem missing_root_no_error:
  "stat proj_fs [''nowhere''] = Inl ENOENT
   \<and> getDirectoryStructure [''nowhere''] [''nowhere''] (lookup proj_fs [''nowhere''])
       = getDirectoryStructure [''empty''] [''empty''] (directory_of [])"
  by (simp add: stat_def proj_fs_def directory_of_def absent_def)

section \<open>Broadcasting\<close>

lemma forEach_send_wire:
  "snd (forEach_send m cs w) = w @ map (\<lambda>c. (cid c, m)) (reached cs)"
  by (induction cs arbitrary: w) (simp_all add: reached_def)

lemma forEach_send_result:
  "fst (forEach_send m cs w) =
     (if \<exists>c\<in>set cs. readyState c = 1 \<and> sendThrows c then Some SendFailed else None)"
  by (induction cs arbitrary: w) auto

lemma broadcastToClients_eq:
  "broadcastToClients m s =
     (if \<exists>c\<in>set (clients s). readyState c = 1 \<and> sendThrows c then Some SendFailed else None,
      s\<lparr>wire := wire s @ map (\<lambda>c. (cid c, m)) (reached (clients s))\<rparr>)"
proof (cases "clients s")
  case Nil
  then show ?thesis by (simp add: broadcastToClients_def reached_def)
next
  case (Cons c cs)
  have "forEach_send m (clients s) (wire s) =
          (fst (forEach_send m (clients s) (wire s)), snd (forEach_send m (clients s) (wire s)))"
    by simp
  then show ?thesis
    unfolding forEach_send_wire forEach_send_result
    by (simp add: broadcastToClients_def Cons)
qed

lemma reached_all:
  "\<forall>c\<in>set cs. readyState c = 1 \<longrightarrow> \<not> sendThrows c \<Longrightarrow>
   reached cs = filter (\<lambda>c. readyState c = 1) cs"
  by (simp add: reached_def takeWhile_eq_all_conv)

lemma broadcastToClients_ok:
  assumes "\<forall>c\<in>set (clients s). readyState c = 1 \<longrightarrow> \<not> sendThrows c"
  shows "broadcastToClients m s =
           (None, s\<lparr>wire := wire s @ map (\<lambda>c. (cid c, m)) (open_clients s)\<rparr>)"
  using assms by (auto simp: broadcastToClients_eq reached_all open_clients_def)

lemma broadcastToClients_clients: "clients (snd (broadcastToClients m s)) = clients s"
  by (simp add: broadcastToClients_eq)

text \<open>
  Nothing in \<^verbatim>\<open>broadcastToClients\<close> catches an exception of \<^verbatim>\<open>send\<close>: the clients
  after the one that throws are not reached.
\<close>

lemma broadcast_send_throws:
  assumes "clients s = [c1, c2, c3]"
    and "readyState c1 = 1" and "\<not> sendThrows c1"
    and "readyState c2 = 1" and "sendThrows c2"
  shows "broadcastToClients m s = (Some SendFailed, s\<lparr>wire := wire s @ [(cid c1, m)]\<rparr>)"
  using assms by (simp add: broadcastToClients_eq reached_def)

text \<open>
  Claim C3, as the code has it. With three registered clients of which the second is
  not OPEN, and the first and third OPEN with a \<^verbatim>\<open>send\<close> that does not throw, a
  broadcast hands the message to the first and the third client and to nobody else,
  returns without an error, and leaves the registered clients as they are: the second
  client is still registered.
\<close>

theorem broadcast_three_clients:
  assumes "clients s = [c1, c2, c3]"
    and "readyState c1 = 1" and "\<not> sendThrows c1"
    and "readyState c2 \<noteq> 1"
    and "readyState c3 = 1" and "\<not> sendThrows c3"
  shows "broadcastToClients m s = (None, s\<lparr>wire := wire s @ [(cid c1, m), (cid c3, m)]\<rparr>)
         \<and> clients (snd (broadcastToClients m s)) = [c1, c2, c3]"
  using assms by (simp add: broadcastToClients_eq reached_def)

theorem broadcast_three_clients_witness:
  "wire (snd (broadcastToClients (FileChange ''a.txt'') three_clients)) =
     [(1, FileChange ''a.txt''), (3, FileChange ''a.txt'')]
   \<and> fst (broadcastToClients (FileChange ''a.txt'') three_clients) = None"
  using broadcast_three_clients [of three_clients
          "\<lparr>cid = 1, readyState = 1, sendThrows = False\<rparr>"
          "\<lparr>cid = 2, readyState = 3, sendThrows = False\<rparr>"
          "\<lparr>cid = 3, readyState = 1, sendThrows = False\<rparr>" "FileChange ''a.txt''"]
  by (simp add: three_clients_def)

text \<open>
  Against claim C3 as stated: after a broadcast to three clients of which client 2 is
  CLOSED, client 2 is still among the registered clients.
\<close>

theorem broadcast_keeps_dead_client:
  "map cid (clients (snd (broadcastToClients (FileChange ''a.txt'') three_clients))) = [1, 2, 3]
   \<and> \<not> (2 \<notin> set (map cid (clients (snd (broadcastToClients (FileChange ''a.txt'') three_clients)))))"
  by (simp add: broadcastToClients_def three_clients_def)

section \<open>The walk and \<^verbatim>\<open>getDirectoryStructure\<close>\<close>

text \<open>
  On a filesystem in which no directory lists a name twice, a walk during which
  neither the filesystem nor \<^verbatim>\<open>projectRoot\<close> changes ends after finitely many awaited
  calls and returns what \<open>getDirectoryStructure\<close> gives.
\<close>

lemma lookup_absent: "lookup absent p = absent"
  by (cases p) (simp_all add: absent_def)

lemma lookup_append: "lookup fsroot (p @ q) = lookup (lookup fsroot p) q"
  by (induction p arbitrary: fsroot) (auto simp: lookup_absent split: option.splits)

lemma lookup_child:
  assumes "lookup fsroot dir = FsNode st err es" and "distinct (map fst es)"
    and "(item, child) \<in> set es"
  shows "lookup fsroot (join dir item) = child"
  using assms by (simp add: join_def lookup_append)

lemma distinct_names_child:
  "distinct_names (FsNode st err es) \<Longrightarrow> (item, child) \<in> set es \<Longrightarrow> distinct_names child"
  by (auto simp: list_all_iff)

lemma walk_run_Done: "walk_run n fsroot pr (Done r) = Done r"
  by (cases n) simp_all

lemma walk_run_add:
  "walk_run (n + m) fsroot pr r = walk_run m fsroot pr (walk_run n fsroot pr r)"
proof (induction n arbitrary: r)
  case 0
  then show ?case by simp
next
  case (Suc n)
  then show ?case by (cases r) (simp_all add: walk_run_Done)
qed

lemma walk_return_Frame:
  "walk_return result (Frame dir nd rest structure # stack) =
     walk_loop dir rest (structure @ [set_children nd result]) stack"
  by (simp add: walk_loop_def)

lemma walk_run_step:
  "walk_run (Suc n) fsroot pr (Suspended w) = walk_run n fsroot pr (walk_step fsroot pr w)"
  by simp

lemma walk_refines_frames:
  assumes "distinct_names nd" and "lookup fsroot dir = nd"
  shows "\<exists>n. walk_run n fsroot pr (Suspended (AwaitReaddir dir stack)) =
               walk_return (getDirectoryStructure pr dir nd) stack"
  using assms
proof (induction nd arbitrary: dir stack)
  case (FsNode st err es)
  show ?case
  proof (cases err)
    case (Some e)
    have "walk_run (Suc 0) fsroot pr (Suspended (AwaitReaddir dir stack)) = walk_return [] stack"
      using FsNode.prems(2) Some by (simp add: walk_step_def readdir_def readdir_node_def)
    with Some show ?thesis by (metis getDirectoryStructure.simps option.simps(5))
  next
    case None
    have loop: "\<exists>n. walk_run n fsroot pr (walk_loop dir (map fst es') acc stack) =
               walk_return (process_items pr dir es' acc) stack"
      if "set es' \<subseteq> set es" for es' acc
      using that
    proof (induction es' arbitrary: acc)
      case Nil
      have "walk_run 0 fsroot pr (walk_loop dir (map fst []) acc stack) =
               walk_return (process_items pr dir [] acc) stack"
        by (simp add: walk_loop_def)
      then show ?case by blast
    next
      case (Cons entry rest)
      obtain item child where entry: "entry = (item, child)" by (cases entry) auto
      with Cons.prems have mem: "(item, child) \<in> set es" and sub: "set rest \<subseteq> set es" by auto
      from FsNode.prems(1) have d: "distinct (map fst es)" by simp
      have ch: "lookup fsroot (join dir item) = child"
        by (rule lookup_child [OF FsNode.prems(2) d mem])
      have st: "stat fsroot (join dir item) = nstat child" by (simp add: stat_def ch)
      have start: "walk_loop dir (map fst (entry # rest)) acc stack =
                     Suspended (AwaitStat dir item (map fst rest) acc stack)"
        by (simp add: walk_loop_def entry)
      show ?case
      proof (cases "nstat child")
        case (Inl e)
        from Cons.IH [OF sub, of acc] obtain n where
          n: "walk_run n fsroot pr (walk_loop dir (map fst rest) acc stack) =
               walk_return (process_items pr dir rest acc) stack" by blast
        have "walk_run (Suc n) fsroot pr (walk_loop dir (map fst (entry # rest)) acc stack) =
               walk_return (process_items pr dir (entry # rest) acc) stack"
          unfolding start walk_run_step by (simp add: walk_step_def st Inl n entry)
        then show ?thesis by blast
      next
        case (Inr stats)
        show ?thesis
        proof (cases "item = ''node_modules'' \<or> item = ''.git''")
          case True
          from Cons.IH [OF sub, of acc] obtain n where
            n: "walk_run n fsroot pr (walk_loop dir (map fst rest) acc stack) =
                 walk_return (process_items pr dir rest acc) stack" by blast
          have "walk_run (Suc n) fsroot pr (walk_loop dir (map fst (entry # rest)) acc stack) =
                 walk_return (process_items pr dir (entry # rest) acc) stack"
            unfolding start walk_run_step using True by (simp add: walk_step_def st Inr n entry)
          then show ?thesis by blast
        next
          case False
          show ?thesis
          proof (cases "isDirectory stats")
            case False
            let ?node = "Node item (relative pr (join dir item)) File
                          (if isFile stats then Some (st_size stats) else None) None"
            from Cons.IH [OF sub, of "acc @ [?node]"] obtain n where
              n: "walk_run n fsroot pr (walk_loop dir (map fst rest) (acc @ [?node]) stack) =
                   walk_return (process_items pr dir rest (acc @ [?node])) stack" by blast
            have "walk_run (Suc n) fsroot pr (walk_loop dir (map fst (entry # rest)) acc stack) =
                   walk_return (process_items pr dir (entry # rest) acc) stack"
              unfolding start walk_run_step
              using False \<open>\<not> (item = ''node_modules'' \<or> item = ''.git'')\<close>
              by (simp add: walk_step_def st Inr n entry)
            then show ?thesis by blast
          next
            case True
            let ?bare = "Node item (relative pr (join dir item)) Directory
                          (if isFile stats then Some (st_size stats) else None) None"
            let ?kids = "getDirectoryStructure pr (join dir item) child"
            let ?node = "Node item (relative pr (join dir item)) Directory
                          (if isFile stats then Some (st_size stats) else None) (Some ?kids)"
            let ?stack = "Frame dir ?bare (map fst rest) acc # stack"
            have dc: "distinct_names child"
              by (rule distinct_names_child [OF FsNode.prems(1) mem])
            have "child \<in> Basic_BNFs.snds (item, child)" by simp
            from FsNode.IH [OF mem this dc ch, of ?stack] obtain n1 where
              n1: "walk_run n1 fsroot pr (Suspended (AwaitReaddir (join dir item) ?stack)) =
                     walk_return ?kids ?stack" by blast
            from Cons.IH [OF sub, of "acc @ [?node]"] obtain n2 where
              n2: "walk_run n2 fsroot pr (walk_loop dir (map fst rest) (acc @ [?node]) stack) =
                   walk_return (process_items pr dir rest (acc @ [?node])) stack" by blast
            have r: "walk_return ?kids ?stack = walk_loop dir (map fst rest) (acc @ [?node]) stack"
              by (simp only: walk_return_Frame) (simp add: set_children_def)
            have s1: "walk_step fsroot pr (AwaitStat dir item (map fst rest) acc stack) =
                        Suspended (AwaitReaddir (join dir item) ?stack)"
              using True \<open>\<not> (item = ''node_modules'' \<or> item = ''.git'')\<close>
              by (simp add: walk_step_def st Inr)
            have p: "process_items pr dir (entry # rest) acc =
                       process_items pr dir rest (acc @ [?node])"
              using True \<open>\<not> (item = ''node_modules'' \<or> item = ''.git'')\<close>
              by (simp add: entry Inr)
            have "walk_run (Suc (n1 + n2)) fsroot pr
                    (walk_loop dir (map fst (entry # rest)) acc stack) =
                   walk_return (process_items pr dir (entry # rest) acc) stack"
              unfolding start walk_run_step s1 walk_run_add n1 r n2 p ..
            then show ?thesis by blast
          qed
        qed
      qed
    qed
    from loop [of es "[]"] obtain n where
      n: "walk_run n fsroot pr (walk_loop dir (map fst es) [] stack) =
               walk_return (process_items pr dir es []) stack" by auto
    have "walk_run (Suc n) fsroot pr (Suspended (AwaitReaddir dir stack)) =
               walk_return (getDirectoryStructure pr dir (FsNode st err es)) stack"
      using FsNode.prems(2) None
      by (simp add: walk_step_def readdir_def readdir_node_def n)
    then show ?thesis by blast
  qed
qed

lemma distinct_names_lookup: "distinct_names fsroot \<Longrightarrow> distinct_names (lookup fsroot p)"
proof (induction p arbitrary: fsroot)
  case Nil
  then show ?case by simp
next
  case (Cons c cs)
  show ?case
  proof (cases "map_of (nentries fsroot) c")
    case None
    then show ?thesis by (simp add: absent_def)
  next
    case (Some child)
    then have "(c, child) \<in> set (nentries fsroot)" by (rule map_of_SomeD)
    with Cons.prems have "distinct_names child"
      by (cases fsroot) (auto simp: list_all_iff)
    with Cons.IH Some show ?thesis by simp
  qed
qed

lemma walk_refines:
  assumes "distinct_names fsroot"
  shows "\<exists>n. walk_run n fsroot pr (Suspended (walk_start dir)) =
               Done (getDirectoryStructure pr dir (lookup fsroot dir))"
  using walk_refines_frames [OF distinct_names_lookup [OF assms] refl, where stack = "[]"]
  by (simp add: walk_start_def)

lemma walk_proj:
  "walk_run 6 proj_fs [''proj''] (Suspended (walk_start [''proj''])) =
     Done [Node ''sub'' ''sub'' Directory None
             (Some [Node ''b.txt'' ''sub/b.txt'' File (Some 20) None]),
           Node ''a.txt'' ''a.txt'' File (Some 10) None]"
  by code_simp

section \<open>Switching the project root\<close>

lemma count_list_distinct: "distinct xs \<Longrightarrow> x \<in> set xs \<Longrightarrow> count_list xs x = 1"
  by (induction xs) auto

lemma recent_after_present:
  assumes "r \<in> set rs" and "length rs \<le> 10"
  shows "recent_after r rs = rs"
  using assms by (simp add: recent_after_def set_add_def)

lemma recent_after_new:
  assumes "r \<notin> set rs" and "distinct rs" and "length rs \<le> 10"
  shows "recent_after r rs = (if length rs = 10 then tl rs else rs) @ [r]"
proof (cases "length rs = 10")
  case False
  with assms show ?thesis by (simp add: recent_after_def set_add_def)
next
  case True
  then obtain first rest where rs: "rs = first # rest" by (cases rs) auto
  with assms have "first \<noteq> r" "first \<notin> set rest" by auto
  with True assms show ?thesis
    by (simp add: recent_after_def set_add_def set_delete_def rs)
qed

lemma set_add_distinct: "distinct xs \<Longrightarrow> distinct (set_add x xs)"
  by (simp add: set_add_def)

lemma set_from_array_distinct: "distinct (set_from_array xs)"
proof -
  have "distinct acc \<Longrightarrow> distinct (foldl (\<lambda>acc x. set_add x acc) acc xs)" for acc :: "'a list"
    by (induction xs arbitrary: acc) (simp_all add: set_add_distinct)
  then show ?thesis by (simp add: set_from_array_def)
qed

lemma recent_after_inv:
  assumes "distinct rs" and "length rs \<le> 10"
  shows "distinct (recent_after r rs) \<and> length (recent_after r rs) \<le> 10"
proof (cases "r \<in> set rs")
  case True
  with assms show ?thesis by (simp add: recent_after_present)
next
  case False
  with assms show ?thesis
    by (cases rs) (auto simp: recent_after_new distinct_tl)
qed

lemma set_project_update_fields:
  "projectRoot (set_project_update p s) = p"
  "recentProjects (set_project_update p s) = recent_after (path_string p) (recentProjects s)"
  "clients (set_project_update p s) = clients s"
  "sessions (set_project_update p s) = sessions s"
  "watcher (set_project_update p s) = watcher s"
  "os_trace (set_project_update p s) = os_trace s"
  "wire (set_project_update p s) = wire s"
  "written (set_project_update p s) = written s"
  by (simp_all add: set_project_update_def recent_after_def Let_def split: list.splits)

lemma write_recent_projects_fields:
  "projectRoot (write_recent_projects e s) = projectRoot s"
  "recentProjects (write_recent_projects e s) = recentProjects s"
  "clients (write_recent_projects e s) = clients s"
  "sessions (write_recent_projects e s) = sessions s"
  "watcher (write_recent_projects e s) = watcher s"
  "os_trace (write_recent_projects e s) = os_trace s"
  "wire (write_recent_projects e s) = wire s"
  by (simp_all add: write_recent_projects_def)

lemma restart_watcher_fields:
  "fst (restart_watcher e s) = (if watchThrows e then Some WatchFailed else None)"
  "projectRoot (snd (restart_watcher e s)) = projectRoot s"
  "recentProjects (snd (restart_watcher e s)) = recentProjects s"
  "clients (snd (restart_watcher e s)) = clients s"
  "wire (snd (restart_watcher e s)) = wire s"
  "written (snd (restart_watcher e s)) = written s"
  "sessions (snd (restart_watcher e s)) =
     closed_sessions (watcher s) (sessions s)
     @ (if watchThrows e then [] else [\<lparr>rootPath = projectRoot s, active = True\<rparr>])"
  "watcher (snd (restart_watcher e s)) =
     (if watchThrows e then watcher s else Some (length (sessions s)))"
  "os_trace (snd (restart_watcher e s)) =
     os_trace s @ (case watcher s of None \<Rightarrow> [] | Some w \<Rightarrow> [WatchClosed w])
     @ (if watchThrows e then [] else [WatchStarted (length (sessions s))])"
  by (auto simp: restart_watcher_def setupWatcher_def watcher_close_def closed_sessions_def
      split: option.splits)

lemma resume_at_idle: "\<not> i < length (pending sys) \<Longrightarrow> resume_at e i sys = sys"
  by (simp add: resume_at_def)

lemma resume_at_stat_rejected:
  assumes "i < length (pending sys)" and "pending sys ! i = SetProjectStat rid p"
    and "stat (fs e) p = Inl err \<or> (\<exists>st. stat (fs e) p = Inr st \<and> \<not> isDirectory st)"
  shows "resume_at e i sys =
           sys\<lparr>pending := take i (pending sys) @ drop (Suc i) (pending sys),
               responses := responses sys @
                 [(rid, Status500 (case stat (fs e) p of Inl err \<Rightarrow> FsError err
                                   | Inr st \<Rightarrow> NotADirectory))]\<rparr>"
  using assms by (auto simp: resume_at_def set_project_after_stat_def respond_def)

lemma resume_at_stat_accepted:
  assumes "i < length (pending sys)" and "pending sys ! i = SetProjectStat rid p"
    and "stat (fs e) p = Inr st" and "isDirectory st"
  shows "resume_at e i sys =
           sys\<lparr>globals := write_recent_projects e (set_project_update p (globals sys)),
               pending := (pending sys)[i := SetProjectWrite rid]\<rparr>"
  using assms by (simp add: resume_at_def set_project_after_stat_def)

text \<open>
  Claim C7. A request with a path is taken up by awaiting \<^verbatim>\<open>stat\<close> on the resolved path.
  When this \<^verbatim>\<open>stat\<close> rejects (the path does not exist) or answers with something that is
  not a directory, whatever has run in the meantime, the request is answered with
  status 500 and its handler ends there, having changed nothing: the project root,
  the recent projects, the watcher, the watchers and the messages sent are as before.
\<close>

theorem invalid_root_rejected:
  assumes "i < length (pending sys)" and "pending sys ! i = SetProjectStat rid (resolve (cwd e0) p)"
    and "stat (fs e) (resolve (cwd e0) p) = Inl err
         \<or> (\<exists>st. stat (fs e) (resolve (cwd e0) p) = Inr st \<and> \<not> isDirectory st)"
  shows "step e0 (SetProject rid (Some p)) sys0 =
           sys0\<lparr>pending := pending sys0 @ [SetProjectStat rid (resolve (cwd e0) p)]\<rparr>
         \<and> (\<exists>err'. responses (step e (Resume i) sys) = responses sys @ [(rid, Status500 err')])
         \<and> pending (step e (Resume i) sys) = take i (pending sys) @ drop (Suc i) (pending sys)
         \<and> globals (step e (Resume i) sys) = globals sys
         \<and> projectRoot (globals (step e (Resume i) sys)) = projectRoot (globals sys)
         \<and> recentProjects (globals (step e (Resume i) sys)) = recentProjects (globals sys)
         \<and> watcher (globals (step e (Resume i) sys)) = watcher (globals sys)
         \<and> sessions (globals (step e (Resume i) sys)) = sessions (globals sys)
         \<and> wire (globals (step e (Resume i) sys)) = wire (globals sys)"
proof -
  have 1: "step e0 (SetProject rid (Some p)) sys0 =
           sys0\<lparr>pending := pending sys0 @ [SetProjectStat rid (resolve (cwd e0) p)]\<rparr>"
    by (simp add: set_project_request_def)
  note r = resume_at_stat_rejected [OF assms]
  from 1 show ?thesis by (simp add: r)
qed

lemma proj_env_stats:
  "resolve (cwd proj_env) ''/proj/sub'' = [''proj'', ''sub'']"
  "resolve (cwd proj_env) ''/proj/a.txt'' = [''proj'', ''a.txt'']"
  "resolve (cwd proj_env) ''../missing'' = [''proj'', ''missing'']"
  "stat (fs proj_env) [''proj'', ''sub'']
     = Inr \<lparr>isDirectory = True, isFile = False, st_size = 4096\<rparr>"
  "stat (fs proj_env) [''proj'', ''a.txt'']
     = Inr \<lparr>isDirectory = False, isFile = True, st_size = 10\<rparr>"
  "stat (fs proj_env) [''proj'', ''missing''] = Inl ENOENT"
  "path_string [''proj'', ''sub''] = ''/proj/sub''"
  "watchThrows proj_env = False"
  by (simp_all add: proj_env_def resolve_def normalize_step_def stat_def proj_fs_def
        directory_of_def regular_file_def absent_def path_string_def)

text \<open>
  The requests for \<^verbatim>\<open>/proj/a.txt\<close>, a file, and for \<^verbatim>\<open>../missing\<close>, which does not exist, are
  both answered with status 500, and nothing else has changed.
\<close>

theorem invalid_root_rejected_witness:
  "run [(proj_env, SetProject 1 (Some ''/proj/a.txt'')), (proj_env, Resume 0),
        (proj_env, SetProject 2 (Some ''../missing'')), (proj_env, Resume 0)] (idle one_client)
     = (idle one_client)\<lparr>responses := [(1, Status500 NotADirectory), (2, Status500 (FsError ENOENT))]\<rparr>"
proof -
  let ?s1 = "(idle one_client)\<lparr>pending := [SetProjectStat 1 [''proj'', ''a.txt'']]\<rparr>"
  let ?s2 = "(idle one_client)\<lparr>responses := [(1, Status500 NotADirectory)]\<rparr>"
  let ?s3 = "?s2\<lparr>pending := [SetProjectStat 2 [''proj'', ''missing'']]\<rparr>"
  have a: "step proj_env (SetProject 1 (Some ''/proj/a.txt'')) (idle one_client) = ?s1"
    using invalid_root_rejected [of 0 ?s1 1 proj_env "''/proj/a.txt''" proj_env _ "idle one_client"]
    by (simp add: proj_env_stats idle_def)
  have b: "step proj_env (Resume 0) ?s1 = ?s2"
    by (simp add: resume_at_def set_project_after_stat_def respond_def proj_env_stats idle_def)
  have c: "step proj_env (SetProject 2 (Some ''../missing'')) ?s2 = ?s3"
    by (simp add: set_project_request_def proj_env_stats idle_def)
  have d: "globals (step proj_env (Resume 0) ?s3) = globals ?s3"
    using invalid_root_rejected [of 0 ?s3 2 proj_env "''../missing''" proj_env ENOENT]
    by (simp add: proj_env_stats idle_def)
  have d': "step proj_env (Resume 0) ?s3 =
      (idle one_client)\<lparr>responses := [(1, Status500 NotADirectory), (2, Status500 (FsError ENOENT))]\<rparr>"
    by (simp add: resume_at_def set_project_after_stat_def respond_def proj_env_stats idle_def)
  show ?thesis by (simp only: run.simps a b c d')
qed

subsection \<open>The recent projects\<close>

text \<open>
  Claim C5, as the code has it. \<^verbatim>\<open>recentProjects\<close> is a \<^verbatim>\<open>Set\<close> in insertion order.
  When the \<^verbatim>\<open>stat\<close> of a request answers with a directory and there are at most ten recent
  projects, the handler makes the path the project root, and the set then holds the
  path exactly once and has at most ten elements; a path that was already in it stays
  where it was, and a new path is appended at the end, after the first (oldest
  inserted) element has been deleted if there were ten already.
\<close>

theorem recent_projects_after_switch:
  assumes "i < length (pending sys)" and "pending sys ! i = SetProjectStat rid p"
    and "stat (fs e) p = Inr st" and "isDirectory st"
    and d: "distinct (recentProjects (globals sys))"
    and l: "length (recentProjects (globals sys)) \<le> 10"
  shows "projectRoot (globals (step e (Resume i) sys)) = p
         \<and> count_list (recentProjects (globals (step e (Resume i) sys))) (path_string p) = 1
         \<and> distinct (recentProjects (globals (step e (Resume i) sys)))
         \<and> length (recentProjects (globals (step e (Resume i) sys))) \<le> 10
         \<and> (path_string p \<in> set (recentProjects (globals sys))
              \<longrightarrow> recentProjects (globals (step e (Resume i) sys)) = recentProjects (globals sys))
         \<and> (path_string p \<notin> set (recentProjects (globals sys))
              \<longrightarrow> recentProjects (globals (step e (Resume i) sys)) =
                    (if length (recentProjects (globals sys)) = 10
                     then tl (recentProjects (globals sys))
                     else recentProjects (globals sys)) @ [path_string p])"
proof -
  let ?r = "path_string p"
  let ?old = "recentProjects (globals sys)"
  let ?new = "recentProjects (globals (resume_at e i sys))"
  have st: "step e (Resume i) sys = resume_at e i sys" by simp
  have r: "?new = recent_after ?r ?old"
    by (simp add: resume_at_stat_accepted [OF assms(1-4)] write_recent_projects_fields
          set_project_update_fields)
  have pr: "projectRoot (globals (resume_at e i sys)) = p"
    by (simp add: resume_at_stat_accepted [OF assms(1-4)] write_recent_projects_fields
          set_project_update_fields)
  let ?P = "\<lambda>sys'. projectRoot (globals sys') = p
         \<and> count_list (recentProjects (globals sys')) (path_string p) = 1
         \<and> distinct (recentProjects (globals sys'))
         \<and> length (recentProjects (globals sys')) \<le> 10
         \<and> (path_string p \<in> set (recentProjects (globals sys))
              \<longrightarrow> recentProjects (globals sys') = recentProjects (globals sys))
         \<and> (path_string p \<notin> set (recentProjects (globals sys))
              \<longrightarrow> recentProjects (globals sys') =
                    (if length (recentProjects (globals sys)) = 10
                     then tl (recentProjects (globals sys))
                     else recentProjects (globals sys)) @ [path_string p])"
  have "?P (resume_at e i sys)"
  proof (cases "?r \<in> set ?old")
    case True
    with l have "?new = ?old" by (simp add: r recent_after_present)
    with True d l pr show ?thesis by (simp add: count_list_distinct)
  next
    case False
    let ?k = "if length ?old = 10 then tl ?old else ?old"
    from False d l have e: "?new = ?k @ [?r]" by (simp add: r recent_after_new)
    have k: "distinct ?k" "set ?k \<subseteq> set ?old" "length ?k \<le> 9 \<or> length ?k < 10"
      using d l by (auto simp: distinct_tl dest: list.set_sel(2) [rotated])
    from k False have "?r \<notin> set ?k" by blast
    then have "count_list (?k @ [?r]) ?r = 1" by (simp add: count_list_0_iff)
    moreover from k \<open>?r \<notin> set ?k\<close> have "distinct (?k @ [?r])" by simp
    moreover from k have "length (?k @ [?r]) \<le> 10" by auto
    ultimately show ?thesis using False e pr by simp
  qed
  then show ?thesis by simp
qed

text \<open>
  The request for \<^verbatim>\<open>/proj/sub\<close> on the server with the recent projects \<^verbatim>\<open>/proj\<close>,
  \<^verbatim>\<open>/proj/sub\<close>.
\<close>

theorem recent_projects_after_switch_witness:
  "recentProjects (globals (run [(proj_env, SetProject 1 (Some ''/proj/sub'')), (proj_env, Resume 0)]
      (idle one_client))) = [''/proj'', ''/proj/sub'']
   \<and> count_list (recentProjects (globals
         (run [(proj_env, SetProject 1 (Some ''/proj/sub'')), (proj_env, Resume 0)]
            (idle one_client)))) ''/proj/sub'' = 1"
proof -
  let ?s1 = "(idle one_client)\<lparr>pending := [SetProjectStat 1 [''proj'', ''sub'']]\<rparr>"
  have a: "step proj_env (SetProject 1 (Some ''/proj/sub'')) (idle one_client) = ?s1"
    by (simp add: set_project_request_def proj_env_stats idle_def)
  from recent_projects_after_switch [of 0 ?s1 1 "[''proj'', ''sub'']" proj_env, OF _ _ proj_env_stats(4)]
  have "count_list (recentProjects (globals (step proj_env (Resume 0) ?s1))) ''/proj/sub'' = 1
        \<and> recentProjects (globals (step proj_env (Resume 0) ?s1)) = [''/proj'', ''/proj/sub'']"
    by (simp add: proj_env_stats idle_def one_client_def)
  then show ?thesis by (simp only: run.simps a) simp
qed

lemma one_switch_run:
  "run [(proj_env, SetProject 1 (Some ''/proj/sub'')), (proj_env, Resume 0), (proj_env, Resume 0),
        (proj_env, Resume 0), (proj_env, Resume 0)] (idle one_client) =
     \<lparr>globals =
        \<lparr>projectRoot = [''proj'', ''sub''], watcher = Some 1,
         recentProjects = [''/proj'', ''/proj/sub''],
         clients = [\<lparr>cid = 1, readyState = 1, sendThrows = False\<rparr>],
         sessions = [\<lparr>rootPath = [''proj''], active = False\<rparr>,
                     \<lparr>rootPath = [''proj'', ''sub''], active = True\<rparr>],
         os_trace = [WatchStarted 0, WatchClosed 0, WatchStarted 1],
         wire = [(1, Structure \<lparr>c_name = ''sub'', c_path = ''/'', c_type = Directory,
                   c_children = [Node ''b.txt'' ''b.txt'' File (Some 20) None]\<rparr>)],
         written = [([''proj'', ''app'', ''.recent_projects''],
                     ''/proj'' @ [CHR 0x0A] @ ''/proj/sub'')]\<rparr>,
      pending = [], listeners = [\<lparr>cid = 1, readyState = 1, sendThrows = False\<rparr>],
      responses = [(1, Json_success)], rejections = []\<rparr>"
  by code_simp

text \<open>
  Against claim C5 as stated: selecting \<^verbatim>\<open>/proj/sub\<close> when the recent projects are
  \<^verbatim>\<open>/proj\<close>, \<^verbatim>\<open>/proj/sub\<close> leaves them in that order, and the request is answered with
  success; the most recent selection is last, not first.
\<close>

theorem recent_projects_not_promoted:
  "responses (run [(proj_env, SetProject 1 (Some ''/proj/sub'')), (proj_env, Resume 0),
        (proj_env, Resume 0), (proj_env, Resume 0), (proj_env, Resume 0)] (idle one_client))
     = [(1, Json_success)]
   \<and> recentProjects one_client = [''/proj'', ''/proj/sub'']
   \<and> recentProjects (globals (run [(proj_env, SetProject 1 (Some ''/proj/sub'')),
        (proj_env, Resume 0), (proj_env, Resume 0), (proj_env, Resume 0), (proj_env, Resume 0)]
        (idle one_client))) = [''/proj'', ''/proj/sub'']
   \<and> hd (recentProjects (globals (run [(proj_env, SetProject 1 (Some ''/proj/sub'')),
        (proj_env, Resume 0), (proj_env, Resume 0), (proj_env, Resume 0), (proj_env, Resume 0)]
        (idle one_client)))) \<noteq> ''/proj/sub''"
  unfolding one_switch_run by (simp add: one_client_def)

section \<open>The callback of the watcher and its error handler\<close>

text \<open>
  Claim C8, as the code has it. The handler of the watcher's \<^verbatim>\<open>error\<close> event only
  logs: no message is sent to any client, no handler is started, and the clients, the
  watchers and the rest of the state stay as they are.
\<close>

theorem watcher_error_only_logged:
  "step e (WatcherError err) sys = sys
   \<and> wire (globals (step e (WatcherError err) sys)) = wire (globals sys)
   \<and> clients (globals (step e (WatcherError err) sys)) = clients (globals sys)
   \<and> sessions (globals (step e (WatcherError err) sys)) = sessions (globals sys)
   \<and> pending (step e (WatcherError err) sys) = pending sys"
  by (simp add: watcher_on_error_def)

text \<open>
  Against claim C8 as stated: with one OPEN client connected, an error of the watcher
  sends nothing, so no \<^verbatim>\<open>error\<close> message either, and leaves nothing waiting that could
  send one later.
\<close>

theorem watcher_error_not_sent:
  "open_clients one_client = [\<lparr>cid = 1, readyState = 1, sendThrows = False\<rparr>]
   \<and> wire (globals (step proj_env (WatcherError ''ENOSPC'') (idle one_client))) = []
   \<and> pending (step proj_env (WatcherError ''ENOSPC'') (idle one_client)) = []"
  by (simp add: watcher_on_error_def one_client_def open_clients_def idle_def)

lemma watch_callback_dropped:
  "\<not> passes_filter filename \<Longrightarrow> watch_callback e t filename sys = sys"
  by (auto simp: passes_filter_def watch_callback_def split: option.splits)

lemma watch_callback_ignored:
  "str_includes fname ''node_modules'' \<or> str_includes fname ''.git''
     \<Longrightarrow> watch_callback e t (Some fname) sys = sys"
  by (rule watch_callback_dropped) (simp add: passes_filter_def)

lemma str_includes_github: "str_includes (''.github/'' @ rest) ''.git''"
  by simp

text \<open>
  Claim C9. The watcher callback drops every event whose filename contains
  \<^verbatim>\<open>node_modules\<close> or \<^verbatim>\<open>.git\<close> as a substring, before it sends or awaits anything, while
  the builder leaves out exactly the entries whose name equals \<^verbatim>\<open>node_modules\<close> or
  \<^verbatim>\<open>.git\<close> (and those whose \<^verbatim>\<open>stat\<close> rejects). So a listed entry \<^verbatim>\<open>.github\<close> is in every
  snapshot of its directory, and an event for a file below \<^verbatim>\<open>.github\<close> broadcasts
  nothing.
\<close>

theorem filters_disagree:
  "(str_includes fname ''node_modules'' \<or> str_includes fname ''.git''
      \<longrightarrow> watch_callback e t (Some fname) sys = sys)
   \<and> map node_name (getDirectoryStructure pr dir (FsNode st None entries)) =
       filter (\<lambda>item. item \<noteq> ''node_modules'' \<and> item \<noteq> ''.git'')
         (map fst (filter (\<lambda>(item, child). case nstat child of Inl err \<Rightarrow> False | Inr stats \<Rightarrow> True)
                     entries))
   \<and> ((''.github'', child) \<in> set entries \<and> nstat child = Inr stats
        \<longrightarrow> ''.github'' \<in> set (map node_name (getDirectoryStructure pr dir (FsNode st None entries))))
   \<and> watch_callback e t (Some (''.github/'' @ rest)) sys = sys"
proof -
  have 1: "str_includes fname ''node_modules'' \<or> str_includes fname ''.git''
      \<longrightarrow> watch_callback e t (Some fname) sys = sys"
    using watch_callback_ignored by blast
  have 3: "(''.github'', child) \<in> set entries \<and> nstat child = Inr stats
        \<longrightarrow> ''.github'' \<in> set (map node_name (getDirectoryStructure pr dir (FsNode st None entries)))"
    unfolding built_names by force
  have 4: "watch_callback e t (Some (''.github/'' @ rest)) sys = sys"
    using watch_callback_ignored [of "''.github/'' @ rest"] str_includes_github by blast
  from 1 built_names 3 4 show ?thesis by blast
qed

text \<open>
  A project with \<^verbatim>\<open>.git\<close> and \<^verbatim>\<open>.github\<close>: the snapshot has \<^verbatim>\<open>.github\<close>, and events
  below either directory leave the server as it is.
\<close>

theorem filters_disagree_witness:
  "map node_name (getDirectoryStructure [''proj''] [''proj''] (lookup github_fs [''proj'']))
     = [''.github'']
   \<and> watch_callback (proj_env\<lparr>fs := github_fs\<rparr>) ''change'' (Some ''.github/ci.yml'')
       (idle one_client) = idle one_client
   \<and> watch_callback (proj_env\<lparr>fs := github_fs\<rparr>) ''change'' (Some ''.git/HEAD'')
       (idle one_client) = idle one_client"
proof -
  have l: "lookup github_fs [''proj''] =
      FsNode (Inr \<lparr>isDirectory = True, isFile = False, st_size = 4096\<rparr>) None
        [(''.git'', directory_of [(''HEAD'', regular_file 23)]),
         (''.github'', directory_of [(''ci.yml'', regular_file 99)])]"
    by (simp add: github_fs_def directory_of_def)
  have g: "str_includes ''.git/HEAD'' ''.git''" by simp
  from filters_disagree [of "''.git/HEAD''" "proj_env\<lparr>fs := github_fs\<rparr>" "''change''"
         "idle one_client"
         "[''proj'']" "[''proj'']" "Inr \<lparr>isDirectory = True, isFile = False, st_size = 4096\<rparr>"
         "[(''.git'', directory_of [(''HEAD'', regular_file 23)]),
           (''.github'', directory_of [(''ci.yml'', regular_file 99)])]"
         "directory_of [(''ci.yml'', regular_file 99)]"
         "\<lparr>isDirectory = True, isFile = False, st_size = 4096\<rparr>" "''ci.yml''"] g
  show ?thesis
    unfolding l by (simp add: directory_of_def)
qed

section \<open>What every schedule keeps\<close>

lemma watcher_inv_iff:
  "watcher_inv s \<longleftrightarrow>
     (\<forall>j<length (sessions s). active (sessions s ! j) \<longrightarrow> watcher s = Some j)"
  by (auto simp: watcher_inv_def active_sessions_def list_all_iff)

lemma closed_sessions_length: "length (closed_sessions w ss) = length ss"
  by (simp add: closed_sessions_def split: option.splits)

lemma closed_sessions_inactive:
  assumes "\<forall>j<length ss. active (ss ! j) \<longrightarrow> w = Some j" and "j < length ss"
  shows "\<not> active (closed_sessions w ss ! j)"
proof (cases "active (ss ! j)")
  case True
  with assms have "w = Some j" by simp
  with assms(2) show ?thesis by (simp add: closed_sessions_def)
next
  case False
  then show ?thesis
    by (cases w) (auto simp: closed_sessions_def nth_list_update)
qed

lemma active_after_start:
  assumes "\<forall>j<length ss. \<not> active (ss ! j)"
  shows "filter (\<lambda>j. active ((ss @ [\<lparr>rootPath = r, active = True\<rparr>]) ! j)) [0..<Suc (length ss)]
           = [length ss]"
proof -
  have "filter (\<lambda>j. active ((ss @ [\<lparr>rootPath = r, active = True\<rparr>]) ! j)) [0..<length ss] = []"
    using assms by (auto simp: filter_empty_conv nth_append)
  then show ?thesis by simp
qed

lemma current_active_inv:
  assumes "watcher_inv s"
  shows "current_active s = None \<or> current_active s = watcher s"
proof (cases "active_sessions s")
  case Nil
  then show ?thesis by (simp add: current_active_def)
next
  case (Cons j js)
  with assms have "watcher s = Some j" by (simp add: watcher_inv_def)
  with Cons show ?thesis by (simp add: current_active_def)
qed

lemma current_active_no_watcher:
  assumes "watcher_inv s" and "watcher s = None"
  shows "current_active s = None"
  using current_active_inv [OF assms(1)] assms(2) by auto

lemma replay_append:
  "replay (t1 @ t2) a = (case replay t1 a of None \<Rightarrow> None | Some b \<Rightarrow> replay t2 b)"
  by (induction t1 a rule: replay.induct) auto

lemma active_sessions_single:
  assumes "active_sessions s = [k]" and "j < length (sessions s)"
  shows "active (sessions s ! j) \<longleftrightarrow> j = k"
proof -
  have "j \<in> set (active_sessions s) \<longleftrightarrow> active (sessions s ! j)"
    using assms(2) by (simp add: active_sessions_def)
  with assms(1) show ?thesis by simp
qed

lemma watcher_inv_cong:
  "sessions s' = sessions s \<Longrightarrow> watcher s' = watcher s \<Longrightarrow> watcher_inv s' = watcher_inv s"
  by (simp add: watcher_inv_def active_sessions_def)

lemma resume_pending: "pending (snd (resume e t sys)) = pending sys"
  by (cases t)
     (auto simp: set_project_after_stat_def set_project_after_write_def
        set_project_after_walk_def watch_callback_after_walk_def on_connection_after_walk_def
        on_message_after_walk_def respond_def
      split: sum.splits prod.splits option.splits walk_result.splits)

lemma ws_send_eq:
  "ws_send ws m s =
     (if sendThrows ws then Some SendFailed else None,
      s\<lparr>wire := wire s @ (if sendThrows ws then [] else [(cid ws, m)])\<rparr>)"
  by (simp add: ws_send_def)

lemma globals_step_same: "globals_step e s s"
proof -
  have "s = s\<lparr>wire := wire s @ []\<rparr>" by simp
  then show ?thesis unfolding globals_step_def by blast
qed

lemma globals_step_wire: "globals_step e s (s\<lparr>wire := wire s @ new\<rparr>)"
  unfolding globals_step_def by blast

lemma globals_step_wire2:
  "globals_step e s (s\<lparr>wire := wire s @ new @ new'\<rparr>)"
  using globals_step_wire [of e s "new @ new'"] by simp

lemma set_project_after_write_eq:
  "set_project_after_write e rid sys =
     (if watchThrows e
      then (None, respond rid (Status500 WatchFailed)
                    (sys\<lparr>globals := snd (restart_watcher e (globals sys))\<rparr>))
      else (Some (SetProjectWalk rid (walk_start (projectRoot (globals sys)))),
            sys\<lparr>globals := snd (restart_watcher e (globals sys))\<rparr>))"
proof -
  obtain r s5 where r: "restart_watcher e (globals sys) = (r, s5)"
    by (cases "restart_watcher e (globals sys)") auto
  from restart_watcher_fields(1,2) [of e "globals sys"] r
  have "r = (if watchThrows e then Some WatchFailed else None)"
    and "projectRoot s5 = projectRoot (globals sys)" by simp_all
  with r show ?thesis by (simp add: set_project_after_write_def)
qed

lemma resume_globals: "globals_step e (globals sys) (globals (snd (resume e t sys)))"
proof (cases t)
  case (SetProjectStat rid p)
  show ?thesis
  proof (cases "stat (fs e) p")
    case (Inl err)
    with SetProjectStat show ?thesis
      by (simp add: set_project_after_stat_def respond_def globals_step_same)
  next
    case (Inr st)
    show ?thesis
    proof (cases "isDirectory st")
      case False
      with SetProjectStat Inr show ?thesis
        by (simp add: set_project_after_stat_def respond_def globals_step_same)
    next
      case True
      have "\<exists>q. write_recent_projects e (set_project_update p (globals sys)) =
                  write_recent_projects e (set_project_update q (globals sys))" by blast
      with SetProjectStat Inr True show ?thesis
        by (simp add: set_project_after_stat_def globals_step_def)
    qed
  qed
next
  case (SetProjectWrite rid)
  then show ?thesis
    by (simp add: set_project_after_write_eq respond_def globals_step_def)
next
  case (SetProjectWalk rid w)
  then show ?thesis
    by (auto simp: set_project_after_walk_def respond_def broadcastToClients_eq
          globals_step_same globals_step_wire
        split: walk_result.splits)
next
  case (WatchWalk w)
  then show ?thesis
    by (auto simp: watch_callback_after_walk_def broadcastToClients_eq
          globals_step_same globals_step_wire
        split: walk_result.splits)
next
  case (ConnectionWalk ws w)
  then show ?thesis
    by (auto simp: on_connection_after_walk_def ws_send_eq
          globals_step_same globals_step_wire
        split: walk_result.splits)
next
  case (MessageWalk ws w)
  then show ?thesis
    by (auto simp: on_message_after_walk_def ws_send_eq
          globals_step_same globals_step_wire
        split: walk_result.splits)
qed

lemma resume_at_globals:
  "globals (resume_at e i sys) =
     (if i < length (pending sys) then globals (snd (resume e (pending sys ! i) sys))
      else globals sys)"
  by (simp add: resume_at_def split: prod.splits option.splits)

lemma resume_at_responses:
  "responses (resume_at e i sys) =
     (if i < length (pending sys) then responses (snd (resume e (pending sys ! i) sys))
      else responses sys)"
  by (simp add: resume_at_def split: prod.splits option.splits)

lemma resume_at_pending:
  "pending (resume_at e i sys) =
     (if i < length (pending sys)
      then (case fst (resume e (pending sys ! i) sys) of
              Some t \<Rightarrow> (pending sys)[i := t]
            | None \<Rightarrow> take i (pending sys) @ drop (Suc i) (pending sys))
      else pending sys)"
proof (cases "i < length (pending sys)")
  case False
  then show ?thesis by (simp add: resume_at_def)
next
  case True
  obtain t' sys' where r: "resume e (pending sys ! i) sys = (t', sys')"
    by (cases "resume e (pending sys ! i) sys") auto
  from resume_pending [of e "pending sys ! i" sys] r have "pending sys' = pending sys" by simp
  with True r show ?thesis by (cases t') (simp_all add: resume_at_def)
qed

lemma watch_callback_globals:
  "globals_step e (globals sys) (globals (watch_callback e t f sys))"
  by (auto simp: watch_callback_def broadcastToClients_eq globals_step_same globals_step_wire
      split: option.splits)

lemma on_message_globals:
  "globals_step e (globals sys) (globals (on_message e ws data sys))"
  by (cases data)
     (auto simp: on_message_def ws_send_eq globals_step_same globals_step_wire)

lemma step_globals: "globals_step e (globals sys) (globals (step e ev sys))"
proof (cases ev)
  case (Connection ws)
  then show ?thesis by (auto simp: on_connection_def globals_step_def)
next
  case (Message ws data)
  then show ?thesis by (simp add: on_message_globals)
next
  case (SetProject rid body)
  then show ?thesis
    by (cases body) (simp_all add: set_project_request_def respond_def globals_step_same)
next
  case (WatchEvent t f)
  then show ?thesis by (simp add: watch_callback_globals)
next
  case (WatcherError err)
  then show ?thesis by (simp add: watcher_on_error_def globals_step_same)
next
  case (Resume i)
  then show ?thesis by (simp add: resume_at_globals resume_globals globals_step_same)
qed

lemma restart_watcher_inv:
  assumes "watcher_inv s"
  shows "watcher_inv (snd (restart_watcher e s))"
proof -
  from assms have c: "\<forall>j<length (sessions s). \<not> active (closed_sessions (watcher s) (sessions s) ! j)"
    by (simp add: closed_sessions_inactive watcher_inv_iff)
  show ?thesis
  proof (cases "watchThrows e")
    case True
    with c show ?thesis
      by (simp add: watcher_inv_iff restart_watcher_fields closed_sessions_length)
  next
    case False
    with c show ?thesis
      by (auto simp: watcher_inv_iff restart_watcher_fields closed_sessions_length nth_append
            less_Suc_eq)
  qed
qed

lemma globals_step_watcher_inv:
  assumes "globals_step e s s'" and "watcher_inv s"
  shows "watcher_inv s'"
  using assms unfolding globals_step_def
proof (elim disjE exE)
  fix new assume "s' = s\<lparr>wire := wire s @ new\<rparr>"
  with assms(2) show ?thesis by (simp add: watcher_inv_def active_sessions_def)
next
  fix ws assume "s' = s\<lparr>clients := clients s @ [ws]\<rparr>"
  with assms(2) show ?thesis by (simp add: watcher_inv_def active_sessions_def)
next
  fix p assume "s' = write_recent_projects e (set_project_update p s)"
  with assms(2) show ?thesis
    by (simp add: watcher_inv_def active_sessions_def write_recent_projects_fields
          set_project_update_fields)
next
  assume "s' = snd (restart_watcher e s)"
  with assms(2) show ?thesis by (simp add: restart_watcher_inv)
qed

lemma step_watcher_inv:
  "watcher_inv (globals sys) \<Longrightarrow> watcher_inv (globals (step e ev sys))"
  using globals_step_watcher_inv [OF step_globals] .

lemma run_watcher_inv:
  "watcher_inv (globals sys) \<Longrightarrow> watcher_inv (globals (run sched sys))"
  by (induction sched arbitrary: sys) (auto simp: step_watcher_inv simp del: step.simps)

lemma globals_step_recent_inv:
  assumes "globals_step e s s'" and "distinct (recentProjects s)"
    and "length (recentProjects s) \<le> 10"
  shows "distinct (recentProjects s') \<and> length (recentProjects s') \<le> 10"
  using assms(1) unfolding globals_step_def
proof (elim disjE exE)
  fix p assume "s' = write_recent_projects e (set_project_update p s)"
  with recent_after_inv [OF assms(2,3)] show ?thesis
    by (simp add: write_recent_projects_fields set_project_update_fields)
qed (use assms(2,3) in \<open>simp_all add: restart_watcher_fields\<close>)

lemma step_recent_inv:
  assumes "distinct (recentProjects (globals sys))" and "length (recentProjects (globals sys)) \<le> 10"
  shows "distinct (recentProjects (globals (step e ev sys)))
         \<and> length (recentProjects (globals (step e ev sys))) \<le> 10"
  using globals_step_recent_inv [OF step_globals assms] .

lemma startup_recent:
  assumes "startup e = Inr sys" and "readdir (fs e) (resolve (cwd e) ''.recent_projects'') = Inl err"
  shows "recentProjects (globals sys) = []"
  using assms by (auto simp: startup_def setupWatcher_def split: if_splits)

lemma startup_watcher:
  assumes "startup e = Inr sys"
  shows "watcher_inv (globals sys)" and "active_sessions (globals sys) = [0]"
    and "os_trace (globals sys) = [WatchStarted 0]" and "pending sys = []"
  using assms
  by (auto simp: startup_def setupWatcher_def watcher_inv_def active_sessions_def
      split: if_splits)

text \<open>
  Only the part of a request that follows a \<^verbatim>\<open>stat\<close> answering with a directory
  changes the project root and the recent projects.
\<close>

lemma only_switch_changes_recent:
  assumes "\<not> (\<exists>i rid p st. ev = Resume i \<and> i < length (pending sys)
                \<and> pending sys ! i = SetProjectStat rid p
                \<and> stat (fs e) p = Inr st \<and> isDirectory st)"
  shows "recentProjects (globals (step e ev sys)) = recentProjects (globals sys)
         \<and> projectRoot (globals (step e ev sys)) = projectRoot (globals sys)"
proof (cases ev)
  case (Resume i)
  show ?thesis
  proof (cases "i < length (pending sys)")
    case False
    with Resume show ?thesis by (simp add: resume_at_def)
  next
    case True
    show ?thesis
    proof (cases "pending sys ! i")
      case (SetProjectStat rid p)
      with assms Resume True
      have "stat (fs e) p = Inl (case stat (fs e) p of Inl err \<Rightarrow> err)
            \<or> (\<exists>st. stat (fs e) p = Inr st \<and> \<not> isDirectory st)"
        by (cases "stat (fs e) p") auto
      from resume_at_stat_rejected [OF True SetProjectStat this] Resume show ?thesis by simp
    next
      case (SetProjectWrite rid)
      with Resume True show ?thesis
        by (simp add: resume_at_globals set_project_after_write_eq respond_def
              restart_watcher_fields)
    next
      case (SetProjectWalk rid w)
      with Resume True show ?thesis
        by (auto simp: resume_at_globals set_project_after_walk_def respond_def
              broadcastToClients_eq split: walk_result.splits)
    next
      case (WatchWalk w)
      with Resume True show ?thesis
        by (auto simp: resume_at_globals watch_callback_after_walk_def
              broadcastToClients_eq split: walk_result.splits)
    next
      case (ConnectionWalk ws w)
      with Resume True show ?thesis
        by (auto simp: resume_at_globals on_connection_after_walk_def ws_send_eq
            split: walk_result.splits)
    next
      case (MessageWalk ws w)
      with Resume True show ?thesis
        by (auto simp: resume_at_globals on_message_after_walk_def ws_send_eq
            split: walk_result.splits)
    qed
  qed
next
  case (Connection ws)
  then show ?thesis by (simp add: on_connection_def)
next
  case (Message ws data)
  then show ?thesis by (cases data) (auto simp: on_message_def ws_send_eq)
next
  case (SetProject rid body)
  then show ?thesis by (cases body) (simp_all add: set_project_request_def respond_def)
next
  case (WatchEvent t f)
  then show ?thesis
    by (auto simp: watch_callback_def broadcastToClients_eq split: option.splits)
next
  case (WatcherError err)
  then show ?thesis by (simp add: watcher_on_error_def)
qed

subsection \<open>The watchers\<close>

lemma count_split:
  assumes "i < length xs"
  shows "length (filter P xs) =
           length (filter P (take i xs)) + (if P (xs ! i) then 1 else 0)
           + length (filter P (drop (Suc i) xs))"
proof -
  from assms have e: "xs = take i xs @ xs ! i # drop (Suc i) xs" by (rule id_take_nth_drop)
  have "length (filter P xs) = length (filter P (take i xs @ xs ! i # drop (Suc i) xs))"
    by (subst e) (rule refl)
  also have "\<dots> = length (filter P (take i xs)) + (if P (xs ! i) then 1 else 0)
           + length (filter P (drop (Suc i) xs))"
    by simp
  finally show ?thesis .
qed

lemma count_update:
  assumes "i < length xs"
  shows "length (filter P (xs[i := y])) + (if P (xs ! i) then 1 else 0) =
           length (filter P xs) + (if P y then 1 else 0)"
proof -
  have "length (filter P (xs[i := y])) =
      length (filter P (take i xs)) + (if P y then 1 else 0)
      + length (filter P (drop (Suc i) xs))"
    using assms by (simp add: upd_conv_take_nth_drop)
  with count_split [OF assms, of P] show ?thesis by simp
qed

lemma count_remove:
  assumes "i < length xs"
  shows "length (filter P (take i xs @ drop (Suc i) xs)) + (if P (xs ! i) then 1 else 0) =
           length (filter P xs)"
  using count_split [OF assms, of P] by simp

lemma restart_watcher_newest:
  assumes "watcher_inv s" and "\<not> watchThrows e"
  shows "newest_active (snd (restart_watcher e s))"
    and "length (sessions (snd (restart_watcher e s))) = Suc (length (sessions s))"
proof -
  let ?s' = "snd (restart_watcher e s)"
  from assms(2) have ss: "sessions ?s' = closed_sessions (watcher s) (sessions s)
              @ [\<lparr>rootPath = projectRoot s, active = True\<rparr>]"
    and wa: "watcher ?s' = Some (length (sessions s))"
    by (simp_all add: restart_watcher_fields)
  from ss show l: "length (sessions ?s') = Suc (length (sessions s))"
    by (simp add: closed_sessions_length)
  from assms(1) have "\<forall>j<length (closed_sessions (watcher s) (sessions s)).
                   \<not> active (closed_sessions (watcher s) (sessions s) ! j)"
    by (simp add: closed_sessions_length closed_sessions_inactive watcher_inv_iff)
  from active_after_start [OF this]
  have a: "active_sessions ?s' = [length (sessions s)]"
    by (simp add: active_sessions_def ss closed_sessions_length)
  from a wa l show "newest_active ?s'" by (auto simp: newest_active_def)
qed

lemma restart_watcher_trace:
  assumes "watcher_inv s"
  shows "\<exists>t. os_trace (snd (restart_watcher e s)) = os_trace s @ t
           \<and> replay t (current_active s) = Some (current_active (snd (restart_watcher e s)))"
proof -
  let ?s' = "snd (restart_watcher e s)"
  let ?c = "case watcher s of None \<Rightarrow> [] | Some w \<Rightarrow> [WatchClosed w]"
  let ?t = "?c @ (if watchThrows e then [] else [WatchStarted (length (sessions s))])"
  have tr: "os_trace ?s' = os_trace s @ ?t" by (simp add: restart_watcher_fields)
  have closed: "replay ?c (current_active s) = Some None"
  proof (cases "watcher s")
    case None
    with assms show ?thesis by (simp add: current_active_no_watcher)
  next
    case (Some w)
    with current_active_inv [OF assms] show ?thesis by auto
  qed
  have "replay ?t (current_active s) = Some (current_active ?s')"
  proof (cases "watchThrows e")
    case False
    from restart_watcher_newest [OF assms False]
    have "current_active ?s' = Some (length (sessions s))"
      by (simp add: newest_active_def current_active_def)
    with False closed show ?thesis by (simp add: replay_append)
  next
    case True
    from assms have "\<forall>j<length (sessions s).
        \<not> active (closed_sessions (watcher s) (sessions s) ! j)"
      by (simp add: closed_sessions_inactive watcher_inv_iff)
    with True have "active_sessions ?s' = []"
      by (simp add: active_sessions_def restart_watcher_fields closed_sessions_length
            filter_empty_conv)
    then have "current_active ?s' = None" by (simp add: current_active_def)
    with True closed show ?thesis by simp
  qed
  with tr show ?thesis by blast
qed

lemma globals_step_trace:
  assumes "globals_step e s s'" and "watcher_inv s"
  shows "\<exists>t. os_trace s' = os_trace s @ t
           \<and> replay t (current_active s) = Some (current_active s')"
  using assms(1) unfolding globals_step_def
proof (elim disjE exE)
  fix new assume "s' = s\<lparr>wire := wire s @ new\<rparr>"
  then have "os_trace s' = os_trace s @ [] \<and> replay [] (current_active s) = Some (current_active s')"
    by (simp add: current_active_def active_sessions_def)
  then show ?thesis by blast
next
  fix ws assume "s' = s\<lparr>clients := clients s @ [ws]\<rparr>"
  then have "os_trace s' = os_trace s @ [] \<and> replay [] (current_active s) = Some (current_active s')"
    by (simp add: current_active_def active_sessions_def)
  then show ?thesis by blast
next
  fix p assume "s' = write_recent_projects e (set_project_update p s)"
  then have "os_trace s' = os_trace s @ [] \<and> replay [] (current_active s) = Some (current_active s')"
    by (simp add: current_active_def active_sessions_def write_recent_projects_fields
          set_project_update_fields)
  then show ?thesis by blast
next
  assume "s' = snd (restart_watcher e s)"
  with restart_watcher_trace [OF assms(2)] show ?thesis by simp
qed

lemma run_trace:
  assumes "watcher_inv (globals sys)"
  shows "\<exists>t. os_trace (globals (run sched sys)) = os_trace (globals sys) @ t
           \<and> replay t (current_active (globals sys))
               = Some (current_active (globals (run sched sys)))"
  using assms
proof (induction sched arbitrary: sys)
  case Nil
  have "os_trace (globals sys) = os_trace (globals sys) @ []
        \<and> replay [] (current_active (globals sys)) = Some (current_active (globals sys))"
    by simp
  then show ?case by (intro exI [of _ "[]"]) simp
next
  case (Cons a sched)
  obtain e ev where a: "a = (e, ev)" by (cases a) auto
  let ?s1 = "step e ev sys"
  from globals_step_trace [OF step_globals Cons.prems, of e ev] obtain t1 where
    t1: "os_trace (globals ?s1) = os_trace (globals sys) @ t1"
        "replay t1 (current_active (globals sys)) = Some (current_active (globals ?s1))"
    by blast
  from Cons.IH [OF step_watcher_inv [OF Cons.prems], of e ev] obtain t2 where
    t2: "os_trace (globals (run sched ?s1)) = os_trace (globals ?s1) @ t2"
        "replay t2 (current_active (globals ?s1))
           = Some (current_active (globals (run sched ?s1)))"
    by blast
  have "os_trace (globals (run (a # sched) sys)) = os_trace (globals sys) @ (t1 @ t2)"
    using t1(1) t2(1) by (simp add: a del: step.simps)
  moreover have "replay (t1 @ t2) (current_active (globals sys))
                   = Some (current_active (globals (run (a # sched) sys)))"
    using t1(2) t2(2) by (simp add: replay_append a del: step.simps)
  ultimately show ?case by blast
qed

lemma resume_restarted:
  "length (sessions (globals (snd (resume e t sys))))
     + (if is_set_project_walk t then 1 else 0)
     + length (filter after_restart (responses sys))
   = length (sessions (globals sys))
     + (case fst (resume e t sys) of
          Some t' \<Rightarrow> if is_set_project_walk t' then 1 else 0
        | None \<Rightarrow> 0)
     + length (filter after_restart (responses (snd (resume e t sys))))"
proof (cases t)
  case (SetProjectStat rid p)
  then show ?thesis
    by (auto simp: set_project_after_stat_def respond_def is_set_project_walk_def
          after_restart_def write_recent_projects_fields set_project_update_fields
        split: sum.splits)
next
  case (SetProjectWrite rid)
  then show ?thesis
    by (simp add: set_project_after_write_eq respond_def is_set_project_walk_def
          after_restart_def restart_watcher_fields closed_sessions_length)
next
  case (SetProjectWalk rid w)
  then show ?thesis
    by (auto simp: set_project_after_walk_def respond_def is_set_project_walk_def
          after_restart_def broadcastToClients_eq
        split: walk_result.splits)
next
  case (WatchWalk w)
  then show ?thesis
    by (auto simp: watch_callback_after_walk_def is_set_project_walk_def broadcastToClients_eq
        split: walk_result.splits)
next
  case (ConnectionWalk ws w)
  then show ?thesis
    by (auto simp: on_connection_after_walk_def is_set_project_walk_def ws_send_eq
        split: walk_result.splits)
next
  case (MessageWalk ws w)
  then show ?thesis
    by (auto simp: on_message_after_walk_def is_set_project_walk_def ws_send_eq
        split: walk_result.splits)
qed

lemma step_restarted:
  "length (sessions (globals (step e ev sys))) + restarted sys =
     length (sessions (globals sys)) + restarted (step e ev sys)"
proof (cases ev)
  case (Resume i)
  show ?thesis
  proof (cases "i < length (pending sys)")
    case False
    with Resume show ?thesis by (simp add: resume_at_def)
  next
    case True
    let ?t = "pending sys ! i"
    note r = resume_restarted [of e ?t sys]
    show ?thesis
    proof (cases "fst (resume e ?t sys)")
      case None
      with count_remove [OF True, of is_set_project_walk] r Resume True show ?thesis
        by (simp add: restarted_def resume_at_globals resume_at_responses resume_at_pending)
    next
      case (Some t')
      with count_update [OF True, of is_set_project_walk t'] r Resume True show ?thesis
        by (simp add: restarted_def resume_at_globals resume_at_responses resume_at_pending)
    qed
  qed
next
  case (Connection ws)
  then show ?thesis by (simp add: on_connection_def restarted_def is_set_project_walk_def)
next
  case (Message ws data)
  then show ?thesis
    by (cases data) (auto simp: on_message_def ws_send_eq restarted_def is_set_project_walk_def)
next
  case (SetProject rid body)
  then show ?thesis
    by (cases body)
       (simp_all add: set_project_request_def respond_def restarted_def is_set_project_walk_def
          after_restart_def)
next
  case (WatchEvent t f)
  then show ?thesis
    by (auto simp: watch_callback_def broadcastToClients_eq restarted_def
          is_set_project_walk_def split: option.splits)
next
  case (WatcherError err)
  then show ?thesis by (simp add: watcher_on_error_def)
qed

lemma run_restarted:
  "length (sessions (globals (run sched sys))) + restarted sys =
     length (sessions (globals sys)) + restarted (run sched sys)"
proof (induction sched arbitrary: sys)
  case Nil
  then show ?case by simp
next
  case (Cons a sched)
  obtain e ev where a: "a = (e, ev)" by (cases a) auto
  from Cons.IH [of "step e ev sys"] step_restarted [of e ev sys]
  show ?case by (simp add: a del: step.simps)
qed

lemma step_responses: "\<exists>new. responses (step e ev sys) = responses sys @ new"
proof (cases ev)
  case (Resume i)
  show ?thesis
  proof (cases "i < length (pending sys)")
    case False
    with Resume show ?thesis by (simp add: resume_at_def)
  next
    case True
    have "\<exists>new. responses (snd (resume e t sys)) = responses sys @ new" for t
      by (cases t)
         (auto simp: set_project_after_stat_def set_project_after_write_eq
            set_project_after_walk_def watch_callback_after_walk_def
            on_connection_after_walk_def on_message_after_walk_def respond_def ws_send_eq
            broadcastToClients_eq
          split: sum.splits walk_result.splits)
    with Resume True show ?thesis by (simp add: resume_at_responses)
  qed
next
  case (Message ws data)
  then show ?thesis by (cases data) (auto simp: on_message_def ws_send_eq)
next
  case (SetProject rid body)
  then show ?thesis by (cases body) (simp_all add: set_project_request_def respond_def)
next
  case (WatchEvent t f)
  then show ?thesis
    by (auto simp: watch_callback_def broadcastToClients_eq split: option.splits)
qed (simp_all add: on_connection_def watcher_on_error_def)

text \<open>Only the part of a request that follows its \<^verbatim>\<open>writeFile\<close> touches the watchers.\<close>

lemma only_restart_changes_watchers:
  assumes "\<not> (\<exists>i rid. ev = Resume i \<and> i < length (pending sys)
                \<and> pending sys ! i = SetProjectWrite rid)"
  shows "sessions (globals (step e ev sys)) = sessions (globals sys)
         \<and> watcher (globals (step e ev sys)) = watcher (globals sys)
         \<and> os_trace (globals (step e ev sys)) = os_trace (globals sys)"
proof (cases ev)
  case (Resume i)
  show ?thesis
  proof (cases "i < length (pending sys)")
    case False
    with Resume show ?thesis by (simp add: resume_at_def)
  next
    case True
    show ?thesis
    proof (cases "pending sys ! i")
      case (SetProjectWrite rid)
      with assms Resume True show ?thesis by blast
    next
      case (SetProjectStat rid p)
      with Resume True show ?thesis
        by (auto simp: resume_at_globals set_project_after_stat_def respond_def
              write_recent_projects_fields set_project_update_fields split: sum.splits)
    next
      case (SetProjectWalk rid w)
      with Resume True show ?thesis
        by (auto simp: resume_at_globals set_project_after_walk_def respond_def
              broadcastToClients_eq split: walk_result.splits)
    next
      case (WatchWalk w)
      with Resume True show ?thesis
        by (auto simp: resume_at_globals watch_callback_after_walk_def
              broadcastToClients_eq split: walk_result.splits)
    next
      case (ConnectionWalk ws w)
      with Resume True show ?thesis
        by (auto simp: resume_at_globals on_connection_after_walk_def ws_send_eq
            split: walk_result.splits)
    next
      case (MessageWalk ws w)
      with Resume True show ?thesis
        by (auto simp: resume_at_globals on_message_after_walk_def ws_send_eq
            split: walk_result.splits)
    qed
  qed
next
  case (Connection ws)
  then show ?thesis by (simp add: on_connection_def)
next
  case (Message ws data)
  then show ?thesis by (cases data) (auto simp: on_message_def ws_send_eq)
next
  case (SetProject rid body)
  then show ?thesis by (cases body) (simp_all add: set_project_request_def respond_def)
next
  case (WatchEvent t f)
  then show ?thesis
    by (auto simp: watch_callback_def broadcastToClients_eq split: option.splits)
next
  case (WatcherError err)
  then show ?thesis by (simp add: watcher_on_error_def)
qed

lemma step_newest:
  assumes "watcher_inv (globals sys)"
  shows "\<exists>new. responses (step e ev sys) = responses sys @ new
           \<and> ((\<exists>r\<in>set new. snd r = Status500 WatchFailed)
               \<or> (sessions (globals (step e ev sys)) = sessions (globals sys)
                   \<and> watcher (globals (step e ev sys)) = watcher (globals sys))
               \<or> newest_active (globals (step e ev sys)))"
proof (cases "\<exists>i rid. ev = Resume i \<and> i < length (pending sys)
                \<and> pending sys ! i = SetProjectWrite rid")
  case False
  from only_restart_changes_watchers [OF False] step_responses [of e ev sys]
  show ?thesis by blast
next
  case True
  then obtain i rid where ev: "ev = Resume i" and i: "i < length (pending sys)"
    and t: "pending sys ! i = SetProjectWrite rid" by blast
  show ?thesis
  proof (cases "watchThrows e")
    case True
    with ev i t have "responses (step e ev sys) = responses sys @ [(rid, Status500 WatchFailed)]"
      by (simp add: resume_at_responses set_project_after_write_eq respond_def)
    then show ?thesis by auto
  next
    case False
    with ev i t have "responses (step e ev sys) = responses sys @ []"
      and "globals (step e ev sys) = snd (restart_watcher e (globals sys))"
      by (simp_all add: resume_at_responses resume_at_globals set_project_after_write_eq)
    with restart_watcher_newest(1) [OF assms False] show ?thesis by metis
  qed
qed

lemma newest_active_cong:
  "sessions s' = sessions s \<Longrightarrow> watcher s' = watcher s \<Longrightarrow> newest_active s' = newest_active s"
  by (simp add: newest_active_def active_sessions_def)

lemma run_newest:
  assumes "watcher_inv (globals sys)"
  shows "\<exists>new. responses (run sched sys) = responses sys @ new
           \<and> ((\<exists>r\<in>set new. snd r = Status500 WatchFailed)
               \<or> (sessions (globals (run sched sys)) = sessions (globals sys)
                   \<and> watcher (globals (run sched sys)) = watcher (globals sys))
               \<or> newest_active (globals (run sched sys)))"
  using assms
proof (induction sched arbitrary: sys)
  case Nil
  show ?case by (intro exI [of _ "[]"]) simp
next
  case (Cons a sched)
  obtain e ev where a: "a = (e, ev)" by (cases a) auto
  let ?s1 = "step e ev sys"
  let ?s2 = "run sched ?s1"
  from step_newest [OF Cons.prems, of e ev] obtain n1 where
    n1: "responses ?s1 = responses sys @ n1"
        "(\<exists>r\<in>set n1. snd r = Status500 WatchFailed)
         \<or> (sessions (globals ?s1) = sessions (globals sys)
             \<and> watcher (globals ?s1) = watcher (globals sys))
         \<or> newest_active (globals ?s1)" by blast
  from Cons.IH [OF step_watcher_inv [OF Cons.prems], of e ev] obtain n2 where
    n2: "responses ?s2 = responses ?s1 @ n2"
        "(\<exists>r\<in>set n2. snd r = Status500 WatchFailed)
         \<or> (sessions (globals ?s2) = sessions (globals ?s1)
             \<and> watcher (globals ?s2) = watcher (globals ?s1))
         \<or> newest_active (globals ?s2)" by blast
  have r: "responses ?s2 = responses sys @ (n1 @ n2)" using n1(1) n2(1) by simp
  have "(\<exists>r\<in>set (n1 @ n2). snd r = Status500 WatchFailed)
         \<or> (sessions (globals ?s2) = sessions (globals sys)
             \<and> watcher (globals ?s2) = watcher (globals sys))
         \<or> newest_active (globals ?s2)"
    using n1(2) n2(2) newest_active_cong [of "globals ?s2" "globals ?s1"] by auto
  with r have "\<exists>new. responses ?s2 = responses sys @ new
           \<and> ((\<exists>r\<in>set new. snd r = Status500 WatchFailed)
               \<or> (sessions (globals ?s2) = sessions (globals sys)
                   \<and> watcher (globals ?s2) = watcher (globals sys))
               \<or> newest_active (globals ?s2))" by blast
  then show ?case by (simp add: a del: step.simps)
qed

text \<open>
  Claim C4. From a state in which only the watcher that \<^verbatim>\<open>watcher\<close> refers to can be
  subscribed (as it is after the start of the module) and no request waits for its
  walk, take any schedule of events, with handlers interleaved at their awaits in any
  way, during which one or more requests have been answered, all of them with
  success, and at whose end no request waits for its walk. Then exactly one watcher
  is subscribed, the one created last, every watcher created before is closed, and
  one watcher was created per answered request. In the order of the calls made on
  the way, no watcher was started while another one was still subscribed: each
  switch closes the old watcher before it starts the new one.
\<close>

theorem one_active_watcher_after_switches:
  assumes inv: "watcher_inv (globals sys0)"
    and q0: "filter is_set_project_walk (pending sys0) = []"
    and r: "run sched sys0 = sys"
    and q: "filter is_set_project_walk (pending sys) = []"
    and rs: "responses sys = responses sys0 @ rs"
    and n: "rs \<noteq> []"
    and ok: "\<forall>r\<in>set rs. snd r = Json_success"
  shows "active_sessions (globals sys) = [length (sessions (globals sys)) - 1]
         \<and> length (sessions (globals sys)) = length (sessions (globals sys0)) + length rs
         \<and> active (sessions (globals sys) ! (length (sessions (globals sys)) - 1))
         \<and> (\<forall>j<length (sessions (globals sys)) - 1. \<not> active (sessions (globals sys) ! j))
         \<and> watcher (globals sys) = Some (length (sessions (globals sys)) - 1)
         \<and> replay (drop (length (os_trace (globals sys0))) (os_trace (globals sys)))
               (current_active (globals sys0))
             = Some (Some (length (sessions (globals sys)) - 1))"
proof -
  let ?s = "globals sys" and ?init = "globals sys0"
  from ok have f: "filter after_restart rs = rs" by (simp add: after_restart_def)
  have r0: "restarted sys0 = length (filter after_restart (responses sys0))"
    by (simp add: restarted_def q0)
  have r1: "restarted sys = length (filter after_restart (responses sys0)) + length rs"
    by (simp add: restarted_def q rs f)
  have "length (sessions ?s) + restarted sys0 = length (sessions ?init) + restarted sys"
    using run_restarted [of sched sys0] by (simp only: r)
  then have l: "length (sessions ?s) = length (sessions ?init) + length rs"
    unfolding r0 r1 by simp
  from run_newest [OF inv, of sched] r rs obtain new where
    new: "responses sys0 @ rs = responses sys0 @ new"
      "(\<exists>r\<in>set new. snd r = Status500 WatchFailed)
       \<or> (sessions ?s = sessions ?init \<and> watcher ?s = watcher ?init)
       \<or> newest_active ?s" by auto
  from new(1) have "new = rs" by simp
  with new(2) ok l n have na: "newest_active ?s" by auto
  then have a: "active_sessions ?s = [length (sessions ?s) - 1]"
    and w: "watcher ?s = Some (length (sessions ?s) - 1)"
    and ne: "sessions ?s \<noteq> []"
    by (simp_all add: newest_active_def)
  from ne have pos: "length (sessions ?s) - 1 < length (sessions ?s)" by (cases "sessions ?s") simp_all
  from active_sessions_single [OF a pos]
  have 1: "active (sessions ?s ! (length (sessions ?s) - 1))" by simp
  have 2: "\<forall>j<length (sessions ?s) - 1. \<not> active (sessions ?s ! j)"
    using active_sessions_single [OF a] by auto
  from run_trace [OF inv, of sched] r obtain t where
    t: "os_trace ?s = os_trace ?init @ t" "replay t (current_active ?init) = Some (current_active ?s)"
    by auto
  from a have "current_active ?s = Some (length (sessions ?s) - 1)"
    by (simp add: current_active_def)
  with t have 3: "replay (drop (length (os_trace ?init)) (os_trace ?s)) (current_active ?init)
             = Some (Some (length (sessions ?s) - 1))" by simp
  from a l 1 2 w 3 show ?thesis by simp
qed

lemma two_switches_run:
  "run two_switches (idle one_client) =
    \<lparr>globals =
       \<lparr>projectRoot = [''proj''], watcher = Some 2,
        recentProjects = [''/proj'', ''/proj/sub''],
        clients = [\<lparr>cid = 1, readyState = 1, sendThrows = False\<rparr>],
        sessions =
          [\<lparr>rootPath = [''proj''], active = False\<rparr>,
           \<lparr>rootPath = [''proj'', ''sub''], active = False\<rparr>,
           \<lparr>rootPath = [''proj''], active = True\<rparr>],
        os_trace =
          [WatchStarted 0, WatchClosed 0, WatchStarted 1, WatchClosed 1, WatchStarted 2],
        wire =
          [(1, Structure
                \<lparr>c_name = ''sub'', c_path = ''/'', c_type = Directory,
                 c_children = [Node ''b.txt'' ''b.txt'' File (Some 20) None]\<rparr>),
           (1, Structure
                \<lparr>c_name = ''proj'', c_path = ''/'', c_type = Directory,
                 c_children =
                   [Node ''sub'' ''sub'' Directory None
                      (Some [Node ''b.txt'' ''sub/b.txt'' File (Some 20) None]),
                    Node ''a.txt'' ''a.txt'' File (Some 10) None]\<rparr>)],
        written =
          [([''proj'', ''app'', ''.recent_projects''], ''/proj'' @ [CHR 0x0A] @ ''/proj/sub''),
           ([''proj'', ''app'', ''.recent_projects''], ''/proj'' @ [CHR 0x0A] @ ''/proj/sub'')]\<rparr>,
     pending = [],
     listeners = [\<lparr>cid = 1, readyState = 1, sendThrows = False\<rparr>],
     responses = [(1, Json_success), (2, Json_success)], rejections = []\<rparr>"
  by code_simp

text \<open>
  Two switches in a row: the trace of the watchers alternates between closing the
  old watcher and starting the new one.
\<close>

theorem one_active_watcher_after_switches_witness:
  "active_sessions (globals (run two_switches (idle one_client))) = [2]
   \<and> responses (run two_switches (idle one_client)) = [(1, Json_success), (2, Json_success)]
   \<and> os_trace (globals (run two_switches (idle one_client)))
     = [WatchStarted 0, WatchClosed 0, WatchStarted 1, WatchClosed 1, WatchStarted 2]"
proof -
  have i: "watcher_inv (globals (idle one_client))"
    by (simp add: watcher_inv_def active_sessions_def one_client_def idle_def)
  have q0: "filter is_set_project_walk (pending (idle one_client)) = []"
    by (simp add: idle_def)
  have q: "filter is_set_project_walk (pending (run two_switches (idle one_client))) = []"
    unfolding two_switches_run by simp
  have rs: "responses (run two_switches (idle one_client)) =
              responses (idle one_client) @ [(1, Json_success), (2, Json_success)]"
    unfolding two_switches_run by (simp add: idle_def)
  from one_active_watcher_after_switches [OF i q0 refl q rs]
  show ?thesis unfolding two_switches_run
    by (simp add: idle_def one_client_def active_sessions_def)
qed

section \<open>Bursts of raw events\<close>

lemma filter_same_key:
  assumes "distinct (map f xs)" and "x \<in> set xs"
  shows "filter (\<lambda>y. f y = f x) xs = [x]"
  using assms
proof (induction xs)
  case Nil
  then show ?case by simp
next
  case (Cons a xs)
  show ?case
  proof (cases "a = x")
    case True
    with Cons.prems(1) have "\<forall>y\<in>set xs. f y \<noteq> f x" by (auto simp: image_iff)
    then have "filter (\<lambda>y. f y = f x) xs = []" by (simp add: filter_empty_conv)
    with True show ?thesis by simp
  next
    case False
    with Cons.prems have x: "x \<in> set xs" and "f a \<noteq> f x" by (auto simp: image_iff)
    with Cons.IH Cons.prems(1) show ?thesis by simp
  qed
qed

lemma sent_to_broadcast:
  "sent_to c (s\<lparr>wire := wire s @ map (\<lambda>c'. (cid c', m)) cs\<rparr>) =
     sent_to c s @ map (\<lambda>c'. m) (filter (\<lambda>c'. cid c' = c) cs)"
  by (simp add: sent_to_def filter_map comp_def)

lemma sent_to_broadcast_one:
  assumes "distinct (map cid (clients s))" and "c \<in> set (clients s)" and "readyState c = 1"
  shows "sent_to (cid c) (s\<lparr>wire := wire s @ map (\<lambda>c'. (cid c', m)) (open_clients s)\<rparr>) =
     sent_to (cid c) s @ [m]"
proof -
  from assms(1) have "distinct (map cid (open_clients s))"
    by (simp add: open_clients_def distinct_map_filter)
  moreover from assms(2,3) have "c \<in> set (open_clients s)" by (simp add: open_clients_def)
  ultimately have "filter (\<lambda>c'. cid c' = cid c) (open_clients s) = [c]"
    by (rule filter_same_key)
  then show ?thesis by (simp add: sent_to_broadcast)
qed

lemma broadcast_sent_to:
  assumes "\<forall>c\<in>set (clients s). readyState c = 1 \<longrightarrow> \<not> sendThrows c"
    and "distinct (map cid (clients s))" and "c \<in> set (clients s)" and "readyState c = 1"
  shows "fst (broadcastToClients m s) = None"
    and "sent_to (cid c) (snd (broadcastToClients m s)) = sent_to (cid c) s @ [m]"
    and "clients (snd (broadcastToClients m s)) = clients s"
    and "projectRoot (snd (broadcastToClients m s)) = projectRoot s"
  using sent_to_broadcast_one [OF assms(2-4), of m]
  by (simp_all add: broadcastToClients_ok [OF assms(1)])

text \<open>What one part of the callback sends to an open client.\<close>

lemma step_watcher_only:
  assumes ok: "\<forall>c\<in>set (clients (globals sys)). readyState c = 1 \<longrightarrow> \<not> sendThrows c"
    and d: "distinct (map cid (clients (globals sys)))"
    and c: "c \<in> set (clients (globals sys))" "readyState c = 1"
    and p: "list_all is_watch_walk (pending sys)"
    and w: "watcher_only ev"
  shows "clients (globals (step e ev sys)) = clients (globals sys)"
    and "list_all is_watch_walk (pending (step e ev sys))"
    and "filter is_fileChange (sent_to (cid c) (globals (step e ev sys))) =
           filter is_fileChange (sent_to (cid c) (globals sys)) @ fileChanges_of [(e, ev)]"
    and "count_to (cid c) is_structure (globals (step e ev sys)) + length (pending (step e ev sys))
           = count_to (cid c) is_structure (globals sys) + length (pending sys)
             + (if passing ev then 1 else 0)"
proof -
  note b = broadcast_sent_to [OF ok d c]
  have "clients (globals (step e ev sys)) = clients (globals sys)
    \<and> list_all is_watch_walk (pending (step e ev sys))
    \<and> filter is_fileChange (sent_to (cid c) (globals (step e ev sys))) =
           filter is_fileChange (sent_to (cid c) (globals sys)) @ fileChanges_of [(e, ev)]
    \<and> count_to (cid c) is_structure (globals (step e ev sys)) + length (pending (step e ev sys))
           = count_to (cid c) is_structure (globals sys) + length (pending sys)
             + (if passing ev then 1 else 0)"
  proof (cases ev)
    case (WatchEvent t f)
    show ?thesis
    proof (cases "passes_filter f")
      case False
      then have "fileChanges_of [(e, WatchEvent t f)] = []"
        by (auto simp: fileChanges_of_def split: option.splits)
      with False WatchEvent p show ?thesis
        by (simp add: watch_callback_dropped passing_def)
    next
      case True
      then obtain fname where f: "f = Some fname" "fname \<noteq> []"
        "\<not> str_includes fname ''node_modules''" "\<not> str_includes fname ''.git''"
        by (cases f) (auto simp: passes_filter_def)
      obtain r s1 where bc: "broadcastToClients (FileChange fname) (globals sys) = (r, s1)"
        by (cases "broadcastToClients (FileChange fname) (globals sys)") auto
      with b [of "FileChange fname"] have r: "r = None"
        and s1: "sent_to (cid c) s1 = sent_to (cid c) (globals sys) @ [FileChange fname]"
          "clients s1 = clients (globals sys)"
        by simp_all
      have st: "step e ev sys =
          sys\<lparr>globals := s1,
              pending := pending sys @ [WatchWalk (walk_start (projectRoot s1))]\<rparr>"
        using f bc r by (simp add: WatchEvent watch_callback_def)
      have fc: "fileChanges_of [(e, ev)] = [FileChange fname]"
        using True f by (simp add: fileChanges_of_def WatchEvent)
      from True p show ?thesis
        unfolding st fc
        by (simp add: s1 count_to_def is_fileChange_def is_structure_def is_watch_walk_def
              passing_def WatchEvent)
    qed
  next
    case (Resume i)
    have fc: "fileChanges_of [(e, ev)] = []" by (simp add: fileChanges_of_def Resume)
    have np: "\<not> passing ev" by (simp add: passing_def Resume)
    show ?thesis
    proof (cases "i < length (pending sys)")
      case False
      with Resume p fc np show ?thesis by (simp add: resume_at_def)
    next
      case True
      with p have "is_watch_walk (pending sys ! i)" by (simp add: list_all_length)
      then obtain wk where t: "pending sys ! i = WatchWalk wk"
        by (cases "pending sys ! i") (simp_all add: is_watch_walk_def)
      show ?thesis
      proof (cases "walk_step (fs e) (projectRoot (globals sys)) wk")
        case (Suspended wk')
        with True t have st: "step e ev sys = sys\<lparr>pending := (pending sys)[i := WatchWalk wk']\<rparr>"
          by (simp add: Resume resume_at_def watch_callback_after_walk_def)
        have "is_watch_walk (WatchWalk wk')" by (simp add: is_watch_walk_def)
        with p have "list_all is_watch_walk ((pending sys)[i := WatchWalk wk'])"
          by (auto simp: list_all_iff dest!: set_update_subset_insert [THEN subsetD])
        with fc np show ?thesis unfolding st by simp
      next
        case (Done result)
        let ?m = "Structure \<lparr>c_name = base (projectRoot (globals sys)), c_path = ''/'',
                    c_type = Directory, c_children = result\<rparr>"
        from Done True t have st: "step e ev sys =
            sys\<lparr>globals := snd (broadcastToClients ?m (globals sys)),
                pending := take i (pending sys) @ drop (Suc i) (pending sys)\<rparr>"
          by (simp add: Resume resume_at_def watch_callback_after_walk_def)
        have "list_all is_watch_walk (take i (pending sys) @ drop (Suc i) (pending sys))"
          using p by (auto simp: list_all_iff dest: in_set_takeD in_set_dropD)
        moreover have "length (take i (pending sys) @ drop (Suc i) (pending sys)) + 1
                         = length (pending sys)"
          using True by simp
        ultimately show ?thesis
          unfolding st fc using np b(2,3) [of ?m]
          by (simp add: count_to_def is_fileChange_def is_structure_def)
      qed
    qed
  qed (use w in \<open>simp_all add: watcher_only_def\<close>)
  then show "clients (globals (step e ev sys)) = clients (globals sys)"
    and "list_all is_watch_walk (pending (step e ev sys))"
    and "filter is_fileChange (sent_to (cid c) (globals (step e ev sys))) =
           filter is_fileChange (sent_to (cid c) (globals sys)) @ fileChanges_of [(e, ev)]"
    and "count_to (cid c) is_structure (globals (step e ev sys)) + length (pending (step e ev sys))
           = count_to (cid c) is_structure (globals sys) + length (pending sys)
             + (if passing ev then 1 else 0)"
    by simp_all
qed

lemma fileChanges_of_Cons:
  "fileChanges_of (a # sched) = fileChanges_of [a] @ fileChanges_of sched"
  by (simp add: fileChanges_of_def)

lemma length_fileChanges_of:
  "length (fileChanges_of sched) = length (filter (\<lambda>(e, ev). passing ev) sched)"
proof (induction sched)
  case Nil
  then show ?case by (simp add: fileChanges_of_def)
next
  case (Cons a sched)
  obtain e ev where a: "a = (e, ev)" by (cases a) auto
  have "length (fileChanges_of [a]) = (if passing ev then 1 else 0)"
    by (cases ev) (auto simp: a fileChanges_of_def passing_def passes_filter_def
          split: option.splits)
  with Cons.IH show ?case
    by (subst fileChanges_of_Cons) (simp add: a)
qed

lemma run_watcher_only:
  assumes "\<forall>c\<in>set (clients (globals sys)). readyState c = 1 \<longrightarrow> \<not> sendThrows c"
    and "distinct (map cid (clients (globals sys)))"
    and "c \<in> set (clients (globals sys))" and "readyState c = 1"
    and "list_all is_watch_walk (pending sys)"
    and "list_all (\<lambda>(e, ev). watcher_only ev) sched"
  shows "filter is_fileChange (sent_to (cid c) (globals (run sched sys))) =
           filter is_fileChange (sent_to (cid c) (globals sys)) @ fileChanges_of sched
         \<and> count_to (cid c) is_structure (globals (run sched sys)) + length (pending (run sched sys))
           = count_to (cid c) is_structure (globals sys) + length (pending sys)
             + length (filter (\<lambda>(e, ev). passing ev) sched)"
  using assms
proof (induction sched arbitrary: sys)
  case Nil
  then show ?case by (simp add: fileChanges_of_def)
next
  case (Cons a sched)
  obtain e ev where a: "a = (e, ev)" by (cases a) auto
  from Cons.prems(6) have w: "watcher_only ev" and ws: "list_all (\<lambda>(e, ev). watcher_only ev) sched"
    by (simp_all add: a)
  note s = step_watcher_only [OF Cons.prems(1-5) w, of e]
  let ?s1 = "step e ev sys"
  from Cons.prems s(1) have p1: "\<forall>c\<in>set (clients (globals ?s1)). readyState c = 1 \<longrightarrow> \<not> sendThrows c"
    "distinct (map cid (clients (globals ?s1)))" "c \<in> set (clients (globals ?s1))"
    by simp_all
  note ih = Cons.IH [OF p1 Cons.prems(4) s(2) ws]
  have 1: "filter is_fileChange (sent_to (cid c) (globals (run (a # sched) sys))) =
           filter is_fileChange (sent_to (cid c) (globals sys)) @ fileChanges_of (a # sched)"
    using ih s(3) by (subst fileChanges_of_Cons) (simp add: a del: step.simps)
  have 2: "count_to (cid c) is_structure (globals (run (a # sched) sys))
             + length (pending (run (a # sched) sys))
           = count_to (cid c) is_structure (globals sys) + length (pending sys)
             + length (filter (\<lambda>(e, ev). passing ev) (a # sched))"
    using ih s(4) by (simp add: a del: step.simps)
  from 1 2 show ?case by blast
qed

text \<open>
  Claim C2, as the code has it. The callback has no debounce window. Take a server on
  which only callbacks of the watcher wait, whose clients are distinct and whose OPEN
  clients have a \<^verbatim>\<open>send\<close> that does not throw, and any schedule of raw events and
  completions of the calls that the walks of the callbacks await. Every OPEN client
  is then sent the filename of each raw event that passes the filter, in a
  \<^verbatim>\<open>fileChange\<close> message of its own and in the order of the events: one per such event.
  And the number of \<^verbatim>\<open>structure\<close> messages sent to this client, together with the number
  of callbacks that wait for their walk, grows by the number of these events: each
  of them leads to one such message once its walk has ended.
\<close>

theorem burst_one_broadcast_per_event:
  assumes "\<forall>c\<in>set (clients (globals sys)). readyState c = 1 \<longrightarrow> \<not> sendThrows c"
    and "distinct (map cid (clients (globals sys)))"
    and "c \<in> set (clients (globals sys))" and "readyState c = 1"
    and "list_all is_watch_walk (pending sys)"
    and "list_all (\<lambda>(e, ev). watcher_only ev) sched"
  shows "filter is_fileChange (sent_to (cid c) (globals (run sched sys))) =
           filter is_fileChange (sent_to (cid c) (globals sys)) @ fileChanges_of sched
         \<and> count_to (cid c) is_fileChange (globals (run sched sys)) =
           count_to (cid c) is_fileChange (globals sys)
           + length (filter (\<lambda>(e, ev). passing ev) sched)
         \<and> count_to (cid c) is_structure (globals (run sched sys)) + length (pending (run sched sys))
           = count_to (cid c) is_structure (globals sys) + length (pending sys)
             + length (filter (\<lambda>(e, ev). passing ev) sched)"
proof -
  note r = run_watcher_only [OF assms]
  from r have "count_to (cid c) is_fileChange (globals (run sched sys)) =
           count_to (cid c) is_fileChange (globals sys) + length (fileChanges_of sched)"
    by (simp add: count_to_def)
  with r show ?thesis by (simp add: length_fileChanges_of)
qed

lemma burst2_run:
  "run burst2 (idle two_clients) =
     \<lparr>globals =
        \<lparr>projectRoot = [''proj''], watcher = Some 0, recentProjects = [''/proj''],
         clients = [\<lparr>cid = 1, readyState = 1, sendThrows = False\<rparr>,
                    \<lparr>cid = 2, readyState = 1, sendThrows = False\<rparr>],
         sessions = [\<lparr>rootPath = [''proj''], active = True\<rparr>],
         os_trace = [WatchStarted 0],
         wire =
           [(1, FileChange ''a.txt''), (2, FileChange ''a.txt''),
            (1, FileChange ''sub/b.txt''), (2, FileChange ''sub/b.txt''),
            (1, Structure (root_content proj_fs [''proj''])),
            (2, Structure (root_content proj_fs [''proj''])),
            (1, Structure (root_content proj_fs [''proj''])),
            (2, Structure (root_content proj_fs [''proj'']))],
         written = []\<rparr>,
      pending = [],
      listeners = [\<lparr>cid = 1, readyState = 1, sendThrows = False\<rparr>,
                   \<lparr>cid = 2, readyState = 1, sendThrows = False\<rparr>],
      responses = [], rejections = []\<rparr>"
  by code_simp

text \<open>
  Two raw events with two OPEN clients: each client is sent two \<^verbatim>\<open>fileChange\<close> and two
  \<^verbatim>\<open>structure\<close> messages, and both \<^verbatim>\<open>fileChange\<close> broadcasts come before the first
  \<^verbatim>\<open>structure\<close> broadcast.
\<close>

theorem burst_one_broadcast_per_event_witness:
  "count_to 2 is_fileChange (globals (run burst2 (idle two_clients))) = 2
   \<and> count_to 2 is_structure (globals (run burst2 (idle two_clients))) = 2
   \<and> filter is_fileChange (sent_to 2 (globals (run burst2 (idle two_clients)))) =
       [FileChange ''a.txt'', FileChange ''sub/b.txt'']
   \<and> map (is_fileChange \<circ> snd) (wire (globals (run burst2 (idle two_clients)))) =
       [True, True, True, True, False, False, False, False]"
proof -
  have p: "length (filter (\<lambda>(e, ev). passing ev) burst2) = 2"
    by (simp add: burst2_def passing_def passes_filter_def)
  have f: "fileChanges_of burst2 = [FileChange ''a.txt'', FileChange ''sub/b.txt'']"
    by (simp add: burst2_def fileChanges_of_def passes_filter_def)
  have w: "list_all (\<lambda>(e, ev). watcher_only ev) burst2"
    by (simp add: burst2_def watcher_only_def list_all_iff)
  let ?c = "\<lparr>cid = 2, readyState = 1, sendThrows = False\<rparr>"
  have ok: "\<forall>c\<in>set (clients (globals (idle two_clients))). readyState c = 1 \<longrightarrow> \<not> sendThrows c"
    and d: "distinct (map cid (clients (globals (idle two_clients))))"
    and c: "?c \<in> set (clients (globals (idle two_clients)))"
    and pe: "list_all is_watch_walk (pending (idle two_clients))"
    and s0: "sent_to 2 (globals (idle two_clients)) = []"
    by (simp_all add: idle_def two_clients_def sent_to_def)
  have r1: "readyState ?c = 1" by simp
  from burst_one_broadcast_per_event [OF ok d c r1 pe w]
  show ?thesis
    unfolding burst2_run
    by (simp add: p f count_to_def sent_to_def is_fileChange_def is_structure_def)
qed

lemma passes_a_txt: "passes_filter (Some ''a.txt'')"
  by (simp add: passes_filter_def)

text \<open>
  Against claim C2 as stated: a burst of 100 raw events for \<^verbatim>\<open>a.txt\<close> leads to 100
  \<^verbatim>\<open>fileChange\<close> messages to the one client, sent as the events arrive, not to one.
\<close>

theorem burst_not_coalesced:
  "count_to 1 is_fileChange
     (globals (run (replicate 100 (proj_env, WatchEvent ''change'' (Some ''a.txt'')))
        (idle one_client))) = 100
   \<and> count_to 1 is_fileChange
     (globals (run (replicate 100 (proj_env, WatchEvent ''change'' (Some ''a.txt'')))
        (idle one_client))) \<noteq> 1"
proof -
  let ?sched = "replicate 100 (proj_env, WatchEvent ''change'' (Some ''a.txt''))"
  have w: "list_all (\<lambda>(e, ev). watcher_only ev) ?sched"
    by (simp add: list_all_iff watcher_only_def)
  have "length (fileChanges_of ?sched) = 100"
    by (simp add: length_fileChanges_of passing_def passes_a_txt)
  moreover
  let ?c = "\<lparr>cid = 1, readyState = 1, sendThrows = False\<rparr>"
  have ok: "\<forall>c\<in>set (clients (globals (idle one_client))). readyState c = 1 \<longrightarrow> \<not> sendThrows c"
    and d: "distinct (map cid (clients (globals (idle one_client))))"
    and c: "?c \<in> set (clients (globals (idle one_client)))"
    and pe: "list_all is_watch_walk (pending (idle one_client))"
    and s0: "sent_to 1 (globals (idle one_client)) = []"
    by (simp_all add: idle_def one_client_def sent_to_def)
  have r1: "readyState ?c = 1" by simp
  have "cid ?c = 1" by simp
  note run_watcher_only [OF ok d c r1 pe w, unfolded this]
  ultimately
  have "count_to 1 is_fileChange (globals (run ?sched (idle one_client))) = 100"
    by (simp add: count_to_def s0 [unfolded One_nat_def])
  then show ?thesis by simp
qed

section \<open>The structure messages\<close>

lemma watch_walk_suspended:
  assumes "i < length (pending sys)" and "pending sys ! i = WatchWalk w"
    and "walk_step (fs e) (projectRoot (globals sys)) w = Suspended w'"
  shows "step e (Resume i) sys = sys\<lparr>pending := (pending sys)[i := WatchWalk w']\<rparr>"
  using assms by (simp add: resume_at_def watch_callback_after_walk_def)

lemma watch_walk_done:
  assumes "i < length (pending sys)" and "pending sys ! i = WatchWalk w"
    and "walk_step (fs e) (projectRoot (globals sys)) w = Done result"
  shows "step e (Resume i) sys =
           sys\<lparr>globals :=
                 snd (broadcastToClients
                        (Structure \<lparr>c_name = base (projectRoot (globals sys)), c_path = ''/'',
                                    c_type = Directory, c_children = result\<rparr>)
                        (globals sys)),
               pending := take i (pending sys) @ drop (Suc i) (pending sys)\<rparr>"
  using assms by (simp add: resume_at_def watch_callback_after_walk_def)

lemma quiet_watch_walk:
  assumes "walk_run n (fs e) (projectRoot (globals sys)) (Suspended w) = Done result"
    and "i < length (pending sys)" and "pending sys ! i = WatchWalk w"
  shows "\<exists>k. run (replicate k (e, Resume i)) sys =
           sys\<lparr>globals :=
                 snd (broadcastToClients
                        (Structure \<lparr>c_name = base (projectRoot (globals sys)), c_path = ''/'',
                                    c_type = Directory, c_children = result\<rparr>)
                        (globals sys)),
               pending := take i (pending sys) @ drop (Suc i) (pending sys)\<rparr>"
  using assms
proof (induction n arbitrary: sys w)
  case 0
  then show ?case by simp
next
  case (Suc n)
  show ?case
  proof (cases "walk_step (fs e) (projectRoot (globals sys)) w")
    case (Done r)
    with Suc.prems(1) have "r = result" by (simp add: walk_run_Done)
    with watch_walk_done [OF Suc.prems(2,3) Done]
    have "run (replicate 1 (e, Resume i)) sys =
           sys\<lparr>globals :=
                 snd (broadcastToClients
                        (Structure \<lparr>c_name = base (projectRoot (globals sys)), c_path = ''/'',
                                    c_type = Directory, c_children = result\<rparr>)
                        (globals sys)),
               pending := take i (pending sys) @ drop (Suc i) (pending sys)\<rparr>"
      by (simp del: step.simps)
    then show ?thesis by blast
  next
    case (Suspended w')
    let ?sys1 = "sys\<lparr>pending := (pending sys)[i := WatchWalk w']\<rparr>"
    have s1: "step e (Resume i) sys = ?sys1"
      by (rule watch_walk_suspended [OF Suc.prems(2,3) Suspended])
    from Suc.prems(1) Suspended
    have "walk_run n (fs e) (projectRoot (globals ?sys1)) (Suspended w') = Done result" by simp
    moreover have "i < length (pending ?sys1)" "pending ?sys1 ! i = WatchWalk w'"
      using Suc.prems(2) by simp_all
    ultimately obtain k where
      k: "run (replicate k (e, Resume i)) ?sys1 =
           ?sys1\<lparr>globals :=
                 snd (broadcastToClients
                        (Structure \<lparr>c_name = base (projectRoot (globals ?sys1)), c_path = ''/'',
                                    c_type = Directory, c_children = result\<rparr>)
                        (globals ?sys1)),
               pending := take i (pending ?sys1) @ drop (Suc i) (pending ?sys1)\<rparr>"
      using Suc.IH [of ?sys1 w'] by blast
    have "run (replicate (Suc k) (e, Resume i)) sys =
           sys\<lparr>globals :=
                 snd (broadcastToClients
                        (Structure \<lparr>c_name = base (projectRoot (globals sys)), c_path = ''/'',
                                    c_type = Directory, c_children = result\<rparr>)
                        (globals sys)),
               pending := take i (pending sys) @ drop (Suc i) (pending sys)\<rparr>"
      using k by (simp add: s1 del: step.simps)
    then show ?thesis by blast
  qed
qed

text \<open>
  A walk of the callback of the watcher during which nothing else runs and the
  filesystem stays as it is ends, and the callback then broadcasts the root with the
  children that \<open>getDirectoryStructure\<close> gives for the project root.
\<close>

lemma quiet_watch_walk_sends_root:
  assumes "distinct_names (fs e)" and "i < length (pending sys)"
    and "pending sys ! i = WatchWalk (walk_start (projectRoot (globals sys)))"
  shows "\<exists>k. run (replicate k (e, Resume i)) sys =
           sys\<lparr>globals :=
                 snd (broadcastToClients
                        (Structure (root_content (fs e) (projectRoot (globals sys))))
                        (globals sys)),
               pending := take i (pending sys) @ drop (Suc i) (pending sys)\<rparr>"
proof -
  from walk_refines [OF assms(1), of "projectRoot (globals sys)" "projectRoot (globals sys)"]
  obtain n where "walk_run n (fs e) (projectRoot (globals sys))
                    (Suspended (walk_start (projectRoot (globals sys)))) =
                  Done (getDirectoryStructure (projectRoot (globals sys))
                          (projectRoot (globals sys))
                          (lookup (fs e) (projectRoot (globals sys))))" by blast
  from quiet_watch_walk [OF this assms(2,3)] show ?thesis by (simp add: root_content_def)
qed

text \<open>
  When a request changes the project root during the walk, the callback goes on
  with the walk of the old root, computes the paths of the remaining entries
  relative to the new root (171), and names the message after the new root (232).
\<close>

lemma race_run:
  "run race (idle one_client) =
     \<lparr>globals =
        \<lparr>projectRoot = [''proj'', ''sub''], watcher = Some 0,
         recentProjects = [''/proj'', ''/proj/sub''],
         clients = [\<lparr>cid = 1, readyState = 1, sendThrows = False\<rparr>],
         sessions = [\<lparr>rootPath = [''proj''], active = True\<rparr>],
         os_trace = [WatchStarted 0],
         wire =
           [(1, FileChange ''a.txt''),
            (1, Structure
                 \<lparr>c_name = ''sub'', c_path = ''/'', c_type = Directory,
                  c_children =
                    [Node ''sub'' [] Directory None
                       (Some [Node ''b.txt'' ''b.txt'' File (Some 20) None]),
                     Node ''a.txt'' ''../a.txt'' File (Some 10) None]\<rparr>)],
         written =
           [([''proj'', ''app'', ''.recent_projects''], ''/proj'' @ [CHR 0x0A] @ ''/proj/sub'')]\<rparr>,
      pending = [SetProjectWrite 1],
      listeners = [\<lparr>cid = 1, readyState = 1, sendThrows = False\<rparr>],
      responses = [], rejections = []\<rparr>"
  by code_simp

lemma race_root_before:
  "projectRoot (globals (run (butlast race) (idle one_client))) = [''proj'', ''sub'']"
  by code_simp

text \<open>
  Claim C10 does not hold of the code. On the schedule above, the \<^verbatim>\<open>structure\<close>
  message of the callback is sent when the project root is \<^verbatim>\<open>/proj/sub\<close>. It carries the
  name \<^verbatim>\<open>sub\<close>, and its children are the entries of \<^verbatim>\<open>/proj\<close>, among them \<^verbatim>\<open>sub\<close>
  itself and \<^verbatim>\<open>a.txt\<close> with the path \<^verbatim>\<open>../a.txt\<close>; the children that
  \<^verbatim>\<open>getDirectoryStructure\<close> gives for the project root are the one file \<^verbatim>\<open>b.txt\<close>.
\<close>

theorem structure_message_mixes_roots:
  "wire (globals (run race (idle one_client))) =
     [(1, FileChange ''a.txt''),
      (1, Structure
           \<lparr>c_name = ''sub'', c_path = ''/'', c_type = Directory,
            c_children =
              [Node ''sub'' [] Directory None
                 (Some [Node ''b.txt'' ''b.txt'' File (Some 20) None]),
               Node ''a.txt'' ''../a.txt'' File (Some 10) None]\<rparr>)]
   \<and> projectRoot (globals (run (butlast race) (idle one_client))) = [''proj'', ''sub'']
   \<and> projectRoot (globals (run race (idle one_client))) = [''proj'', ''sub'']
   \<and> getDirectoryStructure [''proj'', ''sub''] [''proj'', ''sub'']
         (lookup proj_fs [''proj'', ''sub''])
       = [Node ''b.txt'' ''b.txt'' File (Some 20) None]
   \<and> getDirectoryStructure [''proj'', ''sub''] [''proj'', ''sub'']
         (lookup proj_fs [''proj'', ''sub''])
       \<noteq> [Node ''sub'' [] Directory None
                 (Some [Node ''b.txt'' ''b.txt'' File (Some 20) None]),
            Node ''a.txt'' ''../a.txt'' File (Some 10) None]"
proof -
  have g: "getDirectoryStructure [''proj'', ''sub''] [''proj'', ''sub'']
         (lookup proj_fs [''proj'', ''sub''])
       = [Node ''b.txt'' ''b.txt'' File (Some 20) None]"
    by (simp add: proj_fs_def directory_of_def regular_file_def relative_def join_def)
  show ?thesis unfolding race_run race_root_before g by simp
qed

end
